theory Spec2Isabelle
  imports Complex_Main
begin

section \<open>Python values, errors and text\<close>

text \<open>
  The decoder of \<^verbatim>\<open>src/app.py\<close> is embedded function by function.  Every exception the
  source can raise is a value of \<open>error\<close>; a computation that may raise returns
  \<open>error + 'a\<close> with \<open>Inl\<close> for the exception.

  Text is a list of 8-bit characters read as the code points 0 to 255.  Decoded physical
  values and timestamps are exact rationals: the rounding of Python's binary floating
  point (and its infinities and NaN) is outside the model.
\<close>

datatype error =
    StopIteration  \<comment> \<open>\<^verbatim>\<open>next(file)\<close> on an exhausted file\<close>
  | ValueError     \<comment> \<open>\<^verbatim>\<open>float\<close>, \<^verbatim>\<open>int\<close>, \<^verbatim>\<open>bytes\<close>, \<^verbatim>\<open>pd.DataFrame\<close>\<close>
  | KeyError       \<comment> \<open>a missing dictionary key or table column\<close>
  | IndexError     \<comment> \<open>a list assignment out of range\<close>
  | DbcError       \<comment> \<open>any exception of \<^verbatim>\<open>cantools.database.load_file\<close>\<close>
  | DecodeError    \<comment> \<open>any exception of \<^verbatim>\<open>Message.decode\<close>\<close>

subsection \<open>Character classes\<close>

text \<open>
  The classes \<^verbatim>\<open>\d\<close>, \<^verbatim>\<open>\s\<close> and \<^verbatim>\<open>\w\<close> of a Python 3 text pattern follow the Unicode
  tables; below code point 256 these are the sets written here.  \<^verbatim>\<open>str.strip\<close> and
  \<^verbatim>\<open>str.split\<close> use the same whitespace set as \<^verbatim>\<open>\s\<close>.
\<close>

definition code :: "char \<Rightarrow> nat" where
  "code c = of_char c"

definition is_digit :: "char \<Rightarrow> bool" where
  "is_digit c \<longleftrightarrow> 48 \<le> code c \<and> code c \<le> 57"

definition is_space :: "char \<Rightarrow> bool" where
  "is_space c \<longleftrightarrow>
     (9 \<le> code c \<and> code c \<le> 13) \<or> (28 \<le> code c \<and> code c \<le> 32)
     \<or> code c = 133 \<or> code c = 160"

definition is_hex :: "char \<Rightarrow> bool" where
  "is_hex c \<longleftrightarrow>
     (48 \<le> code c \<and> code c \<le> 57) \<or> (65 \<le> code c \<and> code c \<le> 70)
     \<or> (97 \<le> code c \<and> code c \<le> 102)"

definition is_word :: "char \<Rightarrow> bool" where
  "is_word c \<longleftrightarrow>
     (48 \<le> code c \<and> code c \<le> 57) \<or> (65 \<le> code c \<and> code c \<le> 90)
     \<or> code c = 95 \<or> (97 \<le> code c \<and> code c \<le> 122)
     \<or> code c = 170 \<or> code c = 178 \<or> code c = 179 \<or> code c = 181
     \<or> code c = 185 \<or> code c = 186 \<or> (188 \<le> code c \<and> code c \<le> 190)
     \<or> (192 \<le> code c \<and> code c \<le> 214) \<or> (216 \<le> code c \<and> code c \<le> 246)
     \<or> 248 \<le> code c"

subsection \<open>Numbers from text\<close>

definition digit_value :: "char \<Rightarrow> nat" where
  "digit_value c = code c - 48"

definition hex_digit_value :: "char \<Rightarrow> nat" where
  "hex_digit_value c =
     (if code c \<le> 57 then code c - 48
      else if code c \<le> 70 then code c - 55
      else code c - 87)"

definition dec_value :: "string \<Rightarrow> nat" where
  "dec_value s = foldl (\<lambda>a c. 10 * a + digit_value c) 0 s"

definition hex_value :: "string \<Rightarrow> nat" where
  "hex_value s = foldl (\<lambda>a c. 16 * a + hex_digit_value c) 0 s"

text \<open>
  \<^verbatim>\<open>int(x, 16)\<close> on a non-empty run of hexadecimal digits.  Python accepts further
  forms (a sign, a \<^verbatim>\<open>0x\<close> prefix, underscores, surrounding whitespace); the decoder
  only passes text of the class \<^verbatim>\<open>[0-9A-Fa-f]\<close>, so every other text is answered with
  \<open>ValueError\<close> here and that branch is shown unreachable below.
\<close>

definition int16 :: "string \<Rightarrow> error + nat" where
  "int16 s = (if s \<noteq> [] \<and> list_all is_hex s then Inr (hex_value s) else Inl ValueError)"

text \<open>
  \<^verbatim>\<open>float(x)\<close> on plain decimal text \<^verbatim>\<open>digits.digits\<close>: the value is the integer part
  plus the fraction digits scaled by their count.  The other forms Python accepts
  (exponents, signs, \<^verbatim>\<open>inf\<close>, underscores) are not produced by the grammars.
\<close>

definition decimal :: "string \<Rightarrow> string \<Rightarrow> rat" where
  "decimal ip fp = of_nat (dec_value ip) + of_nat (dec_value fp) / 10 ^ length fp"

definition float_str :: "string \<Rightarrow> error + rat" where
  "float_str s =
     (let ip = takeWhile is_digit s; rest = dropWhile is_digit s in
      case rest of
        [] \<Rightarrow> Inl ValueError
      | c # fp \<Rightarrow>
          if c = CHR ''.'' \<and> list_all is_digit fp \<and> (ip \<noteq> [] \<or> fp \<noteq> [])
          then Inr (decimal ip fp)
          else Inl ValueError)"

subsection \<open>String operations\<close>

definition strip :: "string \<Rightarrow> string" where
  "strip s = rev (dropWhile is_space (rev (dropWhile is_space s)))"

text \<open>\<^verbatim>\<open>s.split()\<close>: the maximal runs of non-whitespace characters, in order.\<close>

fun split_aux :: "string \<Rightarrow> string \<Rightarrow> string list" where
  "split_aux w [] = (if w = [] then [] else [w])"
| "split_aux w (c # cs) =
     (if is_space c then (if w = [] then split_aux [] cs else w # split_aux [] cs)
      else split_aux (w @ [c]) cs)"

definition split_ws :: "string \<Rightarrow> string list" where
  "split_ws s = split_aux [] s"

text \<open>\<^verbatim>\<open>s.split(sep)\<close> for a one-character separator: never the empty list.\<close>

fun split_on :: "char \<Rightarrow> string \<Rightarrow> string list" where
  "split_on sep [] = [[]]"
| "split_on sep (c # cs) =
     (if c = sep then [] # split_on sep cs
      else (case split_on sep cs of
              [] \<Rightarrow> [[c]]
            | w # ws \<Rightarrow> (c # w) # ws))"

fun starts_with :: "string \<Rightarrow> string \<Rightarrow> bool" where
  "starts_with [] s = True"
| "starts_with (p # ps) [] = False"
| "starts_with (p # ps) (c # cs) = (p = c \<and> starts_with ps cs)"

text \<open>\<^verbatim>\<open>p in s\<close> for strings.\<close>

fun contains :: "string \<Rightarrow> string \<Rightarrow> bool" where
  "contains p [] = (p = [])"
| "contains p (c # cs) = (starts_with p (c # cs) \<or> contains p cs)"

section \<open>The line grammars\<close>

text \<open>
  Each of the three patterns of \<open>decode_can\<close> is a sequence of quantified character
  classes and literal characters, some of them inside a capture group.  A pattern is
  the list of its pieces, each tagged with the number of the group it lies in
  (0 for none).
\<close>

datatype cls = Digit | Space | Word | Hex | HexSpace | Lit char

fun in_cls :: "cls \<Rightarrow> char \<Rightarrow> bool" where
  "in_cls Digit c = is_digit c"
| "in_cls Space c = is_space c"
| "in_cls Word c = is_word c"
| "in_cls Hex c = is_hex c"
| "in_cls HexSpace c = (is_hex c \<or> is_space c)"
| "in_cls (Lit a) c = (c = a)"

datatype piece = One cls | Star cls | Plus cls

type_synonym pattern = "(piece \<times> nat) list"

text \<open>
  \<^verbatim>\<open>pattern.match(line)\<close>: a backtracking match anchored at the start of the line and
  free at its end.  Quantifiers are greedy: the longest run is tried first and one
  character is given back each time the rest of the pattern fails.  The result is the
  text taken by each piece.
\<close>

fun match_pieces :: "piece list \<Rightarrow> string \<Rightarrow> string list option" where
  "match_pieces [] s = Some []"
| "match_pieces (One c # ps) [] = None"
| "match_pieces (One c # ps) (x # xs) =
     (if in_cls c x then map_option ((#) [x]) (match_pieces ps xs) else None)"
| "match_pieces (Star c # ps) [] = map_option ((#) []) (match_pieces ps [])"
| "match_pieces (Star c # ps) (x # xs) =
     (if in_cls c x then
        (case match_pieces (Star c # ps) xs of
           Some (r # rs) \<Rightarrow> Some ((x # r) # rs)
         | _ \<Rightarrow> map_option ((#) []) (match_pieces ps (x # xs)))
      else map_option ((#) []) (match_pieces ps (x # xs)))"
| "match_pieces (Plus c # ps) [] = None"
| "match_pieces (Plus c # ps) (x # xs) =
     (if in_cls c x then
        (case match_pieces (Star c # ps) xs of
           Some (r # rs) \<Rightarrow> Some ((x # r) # rs)
         | _ \<Rightarrow> None)
      else None)"

definition group :: "nat \<Rightarrow> pattern \<Rightarrow> string list \<Rightarrow> string" where
  "group k pat parts = concat (map snd (filter (\<lambda>(g, t). g = k) (zip (map snd pat) parts)))"

text \<open>
  \<^verbatim>\<open>^\s*\d+\)\s+(\d+\.\d+)\s+\w+\s+([0-9A-Fa-f]+)\s+(\d+)\s+([0-9A-Fa-f\s]+)\<close>
\<close>

definition pattern_v1 :: pattern where
  "pattern_v1 =
     [(Star Space, 0), (Plus Digit, 0), (One (Lit (CHR '')'')), 0), (Plus Space, 0),
      (Plus Digit, 1), (One (Lit (CHR ''.'')), 1), (Plus Digit, 1), (Plus Space, 0),
      (Plus Word, 0), (Plus Space, 0),
      (Plus Hex, 2), (Plus Space, 0),
      (Plus Digit, 3), (Plus Space, 0),
      (Plus HexSpace, 4)]"

text \<open>
  \<^verbatim>\<open>\s*\d+\s+(\d+\.\d+)\s+DT\s+\d+\s+([0-9A-Fa-f]+)\s+Rx\s+(\d+)\s+([0-9A-Fa-f\s]+)\<close>
\<close>

definition pattern_v2 :: pattern where
  "pattern_v2 =
     [(Star Space, 0), (Plus Digit, 0), (Plus Space, 0),
      (Plus Digit, 1), (One (Lit (CHR ''.'')), 1), (Plus Digit, 1), (Plus Space, 0),
      (One (Lit (CHR ''D'')), 0), (One (Lit (CHR ''T'')), 0), (Plus Space, 0),
      (Plus Digit, 0), (Plus Space, 0),
      (Plus Hex, 2), (Plus Space, 0),
      (One (Lit (CHR ''R'')), 0), (One (Lit (CHR ''x'')), 0), (Plus Space, 0),
      (Plus Digit, 3), (Plus Space, 0),
      (Plus HexSpace, 4)]"

text \<open>
  \<^verbatim>\<open>^\s*\d+\s+(\d+\.\d+)\s+DT\s+\d+\s+([0-9A-Fa-f]+)\s+Rx\s+-\s+(\d+)\s+([0-9A-Fa-f\s]+)\<close>
\<close>

definition pattern_v3 :: pattern where
  "pattern_v3 =
     [(Star Space, 0), (Plus Digit, 0), (Plus Space, 0),
      (Plus Digit, 1), (One (Lit (CHR ''.'')), 1), (Plus Digit, 1), (Plus Space, 0),
      (One (Lit (CHR ''D'')), 0), (One (Lit (CHR ''T'')), 0), (Plus Space, 0),
      (Plus Digit, 0), (Plus Space, 0),
      (Plus Hex, 2), (Plus Space, 0),
      (One (Lit (CHR ''R'')), 0), (One (Lit (CHR ''x'')), 0), (Plus Space, 0),
      (One (Lit (CHR ''-'')), 0), (Plus Space, 0),
      (Plus Digit, 3), (Plus Space, 0),
      (Plus HexSpace, 4)]"

text \<open>
  The body of the scanning loop for one line: no record when the line does not match,
  otherwise the timestamp, the frame id and the stripped payload text.  Group 3, the
  declared length, is not read.
\<close>

definition parse_line :: "pattern \<Rightarrow> string \<Rightarrow> error + (rat \<times> nat \<times> string) option" where
  "parse_line pat line =
     (case match_pieces (map fst pat) line of
        None \<Rightarrow> Inr None
      | Some parts \<Rightarrow>
          (case float_str (group 1 pat parts) of
             Inl e \<Rightarrow> Inl e
           | Inr t \<Rightarrow>
               (case int16 (group 2 pat parts) of
                  Inl e \<Rightarrow> Inl e
                | Inr i \<Rightarrow> Inr (Some (t, i, strip (group 4 pat parts))))))"

section \<open>The signal database\<close>

text \<open>
  The database is the object returned by \<^verbatim>\<open>cantools.database.load_file\<close>, a library
  outside the repository.  The decoder reads four things from it, and these are the
  fields here: the messages, the signal names of a message (\<^verbatim>\<open>s.name\<close> for each of
  \<^verbatim>\<open>message.signals\<close>), the lookup by frame id (\<open>None\<close> where the library raises
  \<^verbatim>\<open>KeyError\<close>) and the decoding of a payload
  (\<^verbatim>\<open>msg.decode(data, decode_choices=False, scaling=True)\<close>, the items of the returned
  dictionary in order).  Nothing is assumed about what the library computes.
\<close>

record message =
  frame_id :: nat
  signals :: "string list"
  decode :: "nat list \<Rightarrow> error + (string \<times> rat) list"

record database =
  messages :: "message list"
  get_message_by_frame_id :: "nat \<Rightarrow> message option"

section \<open>Reading the trace\<close>

text \<open>
  A trace file is the list of its lines as Python's file iteration yields them (each
  with its line end).  \<^verbatim>\<open>[next(file) for _ in range(10)]\<close> raises \<^verbatim>\<open>StopIteration\<close> on a
  file of fewer than ten lines.
\<close>

definition read_header :: "string list \<Rightarrow> error + string list" where
  "read_header file = (if length file < 10 then Inl StopIteration else Inr (take 10 file))"

definition version_line :: "string list \<Rightarrow> string" where
  "version_line header =
     (case List.find (contains '';$FILEVERSION='') header of None \<Rightarrow> [] | Some l \<Rightarrow> l)"

definition file_version :: "string list \<Rightarrow> string" where
  "file_version header = last (split_on (CHR ''='') (strip (version_line header)))"

definition select_pattern :: "string \<Rightarrow> pattern" where
  "select_pattern v =
     (if v = ''1.1'' then pattern_v1
      else if v = ''2.0'' then pattern_v2
      else if v = ''2.1'' then pattern_v3
      else pattern_v3)"

text \<open>
  The scanning loop: the three lists \<^verbatim>\<open>timestamps\<close>, \<^verbatim>\<open>message_ids\<close> and
  \<^verbatim>\<open>message_payloads\<close>, extended together by every matching line.
\<close>

fun scan_lines :: "pattern \<Rightarrow> string list \<Rightarrow> error + (rat list \<times> nat list \<times> string list)" where
  "scan_lines pat [] = Inr ([], [], [])"
| "scan_lines pat (line # rest) =
     (case parse_line pat line of
        Inl e \<Rightarrow> Inl e
      | Inr None \<Rightarrow> scan_lines pat rest
      | Inr (Some (t, i, p)) \<Rightarrow>
          (case scan_lines pat rest of
             Inl e \<Rightarrow> Inl e
           | Inr (ts, ids, ps) \<Rightarrow> Inr (t # ts, i # ids, p # ps)))"

text \<open>
  Lines 18 to 42 of \<open>decode_can\<close>: the header window, the version token, the grammar it
  selects and the scan of the whole file (the header lines included) with it.
\<close>

definition read_trace :: "string list \<Rightarrow> error + (rat list \<times> nat list \<times> string list)" where
  "read_trace trc =
     (case read_header trc of
        Inl e \<Rightarrow> Inl e
      | Inr header \<Rightarrow> scan_lines (select_pattern (file_version header)) trc)"

section \<open>The decode pipeline\<close>

text \<open>
  The dictionary \<^verbatim>\<open>result\<close> is an association list in insertion order: the column name
  and its cells, \<open>None\<close> for Python's \<^verbatim>\<open>None\<close>.
\<close>

type_synonym cell = "rat option"
type_synonym result = "(string \<times> cell list) list"

definition setdefault :: "string \<Rightarrow> cell list \<Rightarrow> result \<Rightarrow> result" where
  "setdefault k v d = (case map_of d k of None \<Rightarrow> d @ [(k, v)] | Some _ \<Rightarrow> d)"

definition init_result :: "database \<Rightarrow> rat list \<Rightarrow> result" where
  "init_result db timestamps =
     foldl (\<lambda>r s. setdefault s (replicate (length timestamps) None) r)
       [(''Timestamp'', map Some timestamps)]
       (concat (map signals (messages db)))"

text \<open>\<^verbatim>\<open>bytes(int(x, 16) for x in payload.split())\<close>: every value must be below 256.\<close>

fun data_bytes :: "string list \<Rightarrow> error + nat list" where
  "data_bytes [] = Inr []"
| "data_bytes (x # xs) =
     (case int16 x of
        Inl e \<Rightarrow> Inl e
      | Inr v \<Rightarrow>
          if v < 256 then
            (case data_bytes xs of Inl e \<Rightarrow> Inl e | Inr bs \<Rightarrow> Inr (v # bs))
          else Inl ValueError)"

definition assign :: "string \<Rightarrow> cell list \<Rightarrow> result \<Rightarrow> result" where
  "assign k v d = map (\<lambda>(k', c). if k' = k then (k', v) else (k', c)) d"

text \<open>\<^verbatim>\<open>for k, v in decoded.items(): result[k][idx] = v\<close>\<close>

fun scatter :: "nat \<Rightarrow> (string \<times> rat) list \<Rightarrow> result \<Rightarrow> error + result" where
  "scatter idx [] r = Inr r"
| "scatter idx ((k, v) # kvs) r =
     (case map_of r k of
        None \<Rightarrow> Inl KeyError
      | Some col \<Rightarrow>
          if idx < length col then scatter idx kvs (assign k (col[idx := Some v]) r)
          else Inl IndexError)"

text \<open>The loop over \<^verbatim>\<open>enumerate(zip(message_ids, message_payloads))\<close>.\<close>

fun decode_loop :: "database \<Rightarrow> nat \<Rightarrow> (nat \<times> string) list \<Rightarrow> result \<Rightarrow> error + result" where
  "decode_loop db idx [] r = Inr r"
| "decode_loop db idx ((msg_id, payload) # rest) r =
     (case get_message_by_frame_id db msg_id of
        None \<Rightarrow> decode_loop db (Suc idx) rest r
      | Some msg \<Rightarrow>
          (case data_bytes (split_ws payload) of
             Inl e \<Rightarrow> Inl e
           | Inr bs \<Rightarrow>
               (case decode msg bs of
                  Inl e \<Rightarrow> Inl e
                | Inr decoded \<Rightarrow>
                    (case scatter idx decoded r of
                       Inl e \<Rightarrow> Inl e
                     | Inr r' \<Rightarrow> decode_loop db (Suc idx) rest r'))))"

text \<open>
  The table: \<^verbatim>\<open>pd.DataFrame(result)\<close> takes the columns in dictionary order and needs
  them all of one length, the number of rows.  \<^verbatim>\<open>dropna(axis=1, how='all')\<close> keeps the
  columns with at least one cell that is not null, and keeps the row index.
\<close>

record dataframe =
  nrows :: nat
  columns :: result

definition DataFrame :: "result \<Rightarrow> error + dataframe" where
  "DataFrame d =
     (case d of
        [] \<Rightarrow> Inr \<lparr>nrows = 0, columns = []\<rparr>
      | (k, c) # rest \<Rightarrow>
          if list_all (\<lambda>(k', c'). length c' = length c) rest
          then Inr \<lparr>nrows = length c, columns = d\<rparr>
          else Inl ValueError)"

definition dropna :: "dataframe \<Rightarrow> dataframe" where
  "dropna df = df\<lparr>columns := filter (\<lambda>(k, c). list_ex (\<lambda>x. x \<noteq> None) c) (columns df)\<rparr>"

text \<open>
  \<open>decode_can\<close>.  The first argument is the outcome of loading the DBC file, the second
  the lines of the trace file.
\<close>

definition decode_can :: "error + database \<Rightarrow> string list \<Rightarrow> error + dataframe" where
  "decode_can dbc trc =
     (case dbc of
        Inl e \<Rightarrow> Inl e
      | Inr db \<Rightarrow>
          (case read_trace trc of
             Inl e \<Rightarrow> Inl e
           | Inr (timestamps, message_ids, message_payloads) \<Rightarrow>
               (case decode_loop db 0 (zip message_ids message_payloads)
                       (init_result db timestamps) of
                  Inl e \<Rightarrow> Inl e
                | Inr r \<Rightarrow>
                    (case DataFrame r of
                       Inl e \<Rightarrow> Inl e
                     | Inr df \<Rightarrow> Inr (dropna df)))))"

section \<open>The decode action of the user interface\<close>

text \<open>
  The staging area holds the three fixed paths: the uploaded DBC file (by the outcome
  of loading it), the uploaded trace and the CSV written by the last decode; \<open>None\<close>
  where the file does not exist.
\<close>

record staging =
  dbc_tmp :: "(error + database) option"
  trc_tmp :: "string list option"
  decoded_csv :: "dataframe option"

record graph =
  title :: string
  x_data :: "cell list"
  y_data :: "cell list"

datatype children = Message string | Figures "graph list"

definition lower_char :: "char \<Rightarrow> char" where
  "lower_char c =
     (if (65 \<le> code c \<and> code c \<le> 90) \<or> (192 \<le> code c \<and> code c \<le> 214)
         \<or> (216 \<le> code c \<and> code c \<le> 222)
      then char_of (code c + 32) else c)"

definition lower :: "string \<Rightarrow> string" where
  "lower s = map lower_char s"

fun figures :: "dataframe \<Rightarrow> string list \<Rightarrow> error + graph list" where
  "figures df [] = Inr []"
| "figures df (col # cols) =
     (case map_of (columns df) ''Timestamp'' of
        None \<Rightarrow> Inl KeyError
      | Some x \<Rightarrow>
          (case map_of (columns df) col of
             None \<Rightarrow> Inl KeyError
           | Some y \<Rightarrow>
               (case figures df cols of
                  Inl e \<Rightarrow> Inl e
                | Inr gs \<Rightarrow> Inr (\<lparr>title = col, x_data = x, y_data = y\<rparr> # gs))))"

text \<open>
  \<open>decode_and_plot\<close> returns the pair for the two outputs (the children of the plot area
  and the \<^verbatim>\<open>disabled\<close> flag of the download button), or the exception, together with
  the staging area it leaves.
\<close>

definition decode_and_plot :: "staging \<Rightarrow> (error + children \<times> bool) \<times> staging" where
  "decode_and_plot st =
     (case (dbc_tmp st, trc_tmp st) of
        (Some dbc, Some trc) \<Rightarrow>
          (case decode_can dbc trc of
             Inl e \<Rightarrow> (Inl e, st)
           | Inr df \<Rightarrow>
               if nrows df = 0 \<or> length (columns df) < 2
               then (Inr (Message ''No data to plot.'', True), st)
               else
                 (let st' = st\<lparr>decoded_csv := Some df\<rparr>;
                      signal_cols = filter (\<lambda>c. lower c \<noteq> ''timestamp'') (map fst (columns df))
                  in case figures df signal_cols of
                       Inl e \<Rightarrow> (Inl e, st')
                     | Inr figs \<Rightarrow> (Inr (Figures figs, False), st')))
      | _ \<Rightarrow> (Inr (Message ''Please upload both files.'', True), st))"

section \<open>Lines of the three grammars\<close>

text \<open>
  The text of a data line, written out from its fields: the shape each pattern
  describes.  \<open>gaps\<close> are the whitespace runs between the fields; the payload is a first
  byte token, further tokens each after a whitespace run, and trailing whitespace
  (the line end).
\<close>

record fields =
  lead :: string
  number :: string
  time_int :: string
  time_frac :: string
  kind :: string
  bus :: string
  ident :: string
  dlc :: string
  byte0 :: string
  more_bytes :: "(string \<times> string) list"
  trail :: string
  gaps :: "string list"

definition gap :: "fields \<Rightarrow> nat \<Rightarrow> string" where
  "gap f i = gaps f ! i"

definition payload :: "fields \<Rightarrow> string" where
  "payload f = byte0 f @ concat (map (\<lambda>(s, t). s @ t) (more_bytes f))"

definition tokens :: "fields \<Rightarrow> string list" where
  "tokens f = byte0 f # map snd (more_bytes f)"

definition line_v1 :: "fields \<Rightarrow> string" where
  "line_v1 f =
     lead f @ number f @ '')'' @ gap f 0 @ time_int f @ ''.'' @ time_frac f @ gap f 1
     @ kind f @ gap f 2 @ ident f @ gap f 3 @ dlc f @ gap f 4 @ payload f @ trail f"

definition line_v2 :: "fields \<Rightarrow> string" where
  "line_v2 f =
     lead f @ number f @ gap f 0 @ time_int f @ ''.'' @ time_frac f @ gap f 1
     @ ''DT'' @ gap f 2 @ bus f @ gap f 3 @ ident f @ gap f 4 @ ''Rx'' @ gap f 5
     @ dlc f @ gap f 6 @ payload f @ trail f"

definition line_v3 :: "fields \<Rightarrow> string" where
  "line_v3 f =
     lead f @ number f @ gap f 0 @ time_int f @ ''.'' @ time_frac f @ gap f 1
     @ ''DT'' @ gap f 2 @ bus f @ gap f 3 @ ident f @ gap f 4 @ ''Rx'' @ gap f 5
     @ ''-'' @ gap f 6 @ dlc f @ gap f 7 @ payload f @ trail f"

definition run1 :: "(char \<Rightarrow> bool) \<Rightarrow> string \<Rightarrow> bool" where
  "run1 P s \<longleftrightarrow> s \<noteq> [] \<and> list_all P s"

definition well_formed :: "fields \<Rightarrow> bool" where
  "well_formed f \<longleftrightarrow>
     list_all is_space (lead f) \<and> run1 is_digit (number f)
     \<and> run1 is_digit (time_int f) \<and> run1 is_digit (time_frac f)
     \<and> run1 is_word (kind f) \<and> run1 is_digit (bus f)
     \<and> run1 is_hex (ident f) \<and> run1 is_digit (dlc f)
     \<and> run1 is_hex (byte0 f)
     \<and> list_all (\<lambda>(s, t). run1 is_space s \<and> run1 is_hex t) (more_bytes f)
     \<and> list_all is_space (trail f)
     \<and> length (gaps f) = 8 \<and> list_all (run1 is_space) (gaps f)"

text \<open>What follows the payload on the line: nothing, or text that starts outside
  \<^verbatim>\<open>[0-9A-Fa-f\s]\<close>.\<close>

definition ends_payload :: "string \<Rightarrow> bool" where
  "ends_payload rest = (case rest of [] \<Rightarrow> True | c # _ \<Rightarrow> \<not> is_hex c \<and> \<not> is_space c)"

section \<open>A database with linear signals\<close>

text \<open>
  Modelled from the spec: the DBC library (\<^verbatim>\<open>cantools\<close>) is not part of the repository.
  The specification gives a signal a name, a bit layout, a scale and an offset, has the
  lookup answer with the message of a frame id, and has decoding apply each signal's
  scale and offset to its raw value.  The raw value is read here as an unsigned
  little-endian bit field; a payload shorter than the message is a decoding error.
\<close>

record signal_def =
  name :: string
  start_bit :: nat
  bit_length :: nat
  scale :: rat
  offset :: rat

definition le_value :: "nat list \<Rightarrow> nat" where
  "le_value bs = foldr (\<lambda>b a. b + 256 * a) bs 0"

definition raw_value :: "signal_def \<Rightarrow> nat list \<Rightarrow> nat" where
  "raw_value s bs = (le_value bs div 2 ^ start_bit s) mod 2 ^ bit_length s"

definition decode_signals :: "signal_def list \<Rightarrow> nat \<Rightarrow> nat list \<Rightarrow> error + (string \<times> rat) list" where
  "decode_signals sigs len bs =
     (if length bs < len then Inl DecodeError
      else Inr (map (\<lambda>s. (name s, of_nat (raw_value s bs) * scale s + offset s)) sigs))"

definition make_message :: "nat \<Rightarrow> nat \<Rightarrow> signal_def list \<Rightarrow> message" where
  "make_message fid len sigs =
     \<lparr>frame_id = fid, signals = map name sigs, decode = decode_signals sigs len\<rparr>"

definition make_database :: "message list \<Rightarrow> database" where
  "make_database msgs =
     \<lparr>messages = msgs, get_message_by_frame_id = (\<lambda>i. List.find (\<lambda>m. frame_id m = i) msgs)\<rparr>"

section \<open>Example inputs\<close>

definition eol :: "string \<Rightarrow> string" where
  "eol s = s @ [CHR 0x0A]"

text \<open>Scenario A: message \<^verbatim>\<open>0x100\<close> with the signal Speed, scale 0.1 and offset 0.\<close>

definition speed_signal :: signal_def where
  "speed_signal = \<lparr>name = ''Speed'', start_bit = 0, bit_length = 16, scale = 1 / 10, offset = 0\<rparr>"

definition speed_db :: database where
  "speed_db = make_database [make_message 0x100 2 [speed_signal]]"

definition header_v1 :: "string list" where
  "header_v1 =
     [eol '';$FILEVERSION=1.1'',
      eol '';$STARTTIME=43008.920986006946'',
      eol '';'',
      eol '';   Start time: 30.09.2017 22:06:13.191.0'',
      eol '';   Generated by PCAN-View v4.2.1.533'',
      eol '';'',
      eol '';   Message Number'',
      eol '';   |         Time Offset (ms)'',
      eol '';   |         |        Type'']"

definition speed_line :: string where
  "speed_line = eol ''     1)        12.5  Rx         0100  2  64 00 ''"

definition speed_trace :: "string list" where
  "speed_trace = header_v1 @ [speed_line]"

text \<open>A database without messages and a trace of ten empty lines.\<close>

definition no_db :: database where
  "no_db = \<lparr>messages = [], get_message_by_frame_id = (\<lambda>i. None)\<rparr>"

definition blank_trace :: "string list" where
  "blank_trace = replicate 10 (eol [])"

text \<open>
  Proof vocabulary for the decode loop: \<open>keeps J r r'\<close> says that \<open>r'\<close> has the columns
  of \<open>r\<close> in the same order and of the same lengths, that cells outside the rows \<open>J\<close>
  are unchanged and that no filled cell became null; \<open>hits\<close> are the rows whose frame id
  the database knows.
\<close>

definition keeps :: "nat set \<Rightarrow> result \<Rightarrow> result \<Rightarrow> bool" where
  "keeps J r r' \<longleftrightarrow>
     list_all2 (\<lambda>a b. fst b = fst a \<and> length (snd b) = length (snd a)
                  \<and> (\<forall>j. j \<notin> J \<longrightarrow> snd b ! j = snd a ! j)
                  \<and> (\<forall>j. snd a ! j \<noteq> None \<longrightarrow> snd b ! j \<noteq> None)) r r'"

definition hits :: "database \<Rightarrow> nat \<Rightarrow> (nat \<times> string) list \<Rightarrow> nat set" where
  "hits db idx recs =
     {j. idx \<le> j \<and> j - idx < length recs
         \<and> get_message_by_frame_id db (fst (recs ! (j - idx))) \<noteq> None}"

text \<open>A payload with a token above \<^verbatim>\<open>FF\<close>.\<close>

definition wide_line :: string where
  "wide_line = eol ''     1)        12.5  Rx         0100  2  164 00 ''"

definition wide_trace :: "string list" where
  "wide_trace = header_v1 @ [wide_line]"

text \<open>A second message that the trace never carries, and a signal named like the
  time column.\<close>

definition rpm_signal :: signal_def where
  "rpm_signal = \<lparr>name = ''Rpm'', start_bit = 0, bit_length = 8, scale = 1, offset = 0\<rparr>"

definition two_db :: database where
  "two_db = make_database [make_message 0x100 2 [speed_signal], make_message 0x200 1 [rpm_signal]]"

definition stamp_signal :: signal_def where
  "stamp_signal = \<lparr>name = ''Timestamp'', start_bit = 0, bit_length = 16, scale = 1 / 10, offset = 0\<rparr>"

definition stamp_db :: database where
  "stamp_db = make_database [make_message 0x100 2 [stamp_signal]]"

text \<open>
  Proof vocabulary for the matcher: \<open>fits\<close> says that a text is one a piece can take,
  \<open>stops c s\<close> that a run of class \<open>c\<close> cannot go on into \<open>s\<close>, and \<open>shape\<close> that a list of
  texts is the split of a line into maximal runs, one per piece.
\<close>

definition stops :: "cls \<Rightarrow> string \<Rightarrow> bool" where
  "stops c s = (case s of [] \<Rightarrow> True | x # _ \<Rightarrow> \<not> in_cls c x)"

fun fits :: "piece \<Rightarrow> string \<Rightarrow> bool" where
  "fits (One c) t = (case t of [x] \<Rightarrow> in_cls c x | _ \<Rightarrow> False)"
| "fits (Star c) t = list_all (in_cls c) t"
| "fits (Plus c) t = (t \<noteq> [] \<and> list_all (in_cls c) t)"

fun shape :: "piece list \<Rightarrow> string list \<Rightarrow> string \<Rightarrow> bool" where
  "shape [] [] rest = True"
| "shape (One c # ps) (t # ts) rest = (fits (One c) t \<and> shape ps ts rest)"
| "shape (Star c # ps) (t # ts) rest =
     (fits (Star c) t \<and> stops c (concat ts @ rest) \<and> shape ps ts rest)"
| "shape (Plus c # ps) (t # ts) rest =
     (fits (Plus c) t \<and> stops c (concat ts @ rest) \<and> shape ps ts rest)"
| "shape _ _ rest = False"

definition byte_pairs :: "(string \<times> string) list \<Rightarrow> bool" where
  "byte_pairs prs \<longleftrightarrow> list_all (\<lambda>(s, t). run1 is_space s \<and> run1 is_hex t) prs"

text \<open>The fields of the data line of scenario A.\<close>

definition speed_fields :: fields where
  "speed_fields =
     \<lparr>lead = ''     '', number = ''1'', time_int = ''12'', time_frac = ''5'', kind = ''Rx'',
      bus = ''1'', ident = ''0100'', dlc = ''2'', byte0 = ''64'', more_bytes = [('' '', ''00'')],
      trail = eol '' '', gaps = [''        '', ''  '', ''         '', ''  '', ''  '', '' '', '' '', '' '']\<rparr>"

text \<open>
  Proof vocabulary: what every match of a grammar captures in its four groups.
\<close>

definition grammar_groups :: "pattern \<Rightarrow> bool" where
  "grammar_groups pat \<longleftrightarrow>
     (\<forall>l ts. match_pieces (map fst pat) l = Some ts \<longrightarrow>
        (\<exists>ip fp. group 1 pat ts = ip @ ''.'' @ fp \<and> run1 is_digit ip \<and> run1 is_digit fp)
        \<and> run1 is_hex (group 2 pat ts) \<and> run1 is_digit (group 3 pat ts)
        \<and> list_all (\<lambda>c. is_hex c \<or> is_space c) (group 4 pat ts))"

section \<open>Numerals by position\<close>

text \<open>
  Modelled from the spec: the number a numeral writes, read from a table of digits and
  the weights of the positions, without reference to the conversions of the code.  The
  table gives a hexadecimal letter the same digit in either case.
\<close>

definition digit_table :: "(char \<times> nat) list" where
  "digit_table =
     [(CHR ''0'', 0), (CHR ''1'', 1), (CHR ''2'', 2), (CHR ''3'', 3), (CHR ''4'', 4),
      (CHR ''5'', 5), (CHR ''6'', 6), (CHR ''7'', 7), (CHR ''8'', 8), (CHR ''9'', 9),
      (CHR ''a'', 10), (CHR ''b'', 11), (CHR ''c'', 12), (CHR ''d'', 13), (CHR ''e'', 14),
      (CHR ''f'', 15),
      (CHR ''A'', 10), (CHR ''B'', 11), (CHR ''C'', 12), (CHR ''D'', 13), (CHR ''E'', 14),
      (CHR ''F'', 15)]"

definition digit_of :: "char \<Rightarrow> nat" where
  "digit_of c = (case map_of digit_table c of Some v \<Rightarrow> v | None \<Rightarrow> 0)"

fun positional :: "nat \<Rightarrow> nat list \<Rightarrow> nat" where
  "positional b [] = 0"
| "positional b (d # ds) = d * b ^ length ds + positional b ds"

section \<open>Evaluation of the examples\<close>

lemma blank_read: "read_trace blank_trace = Inr ([], [], [])"
  by code_simp

lemma blank_decode: "decode_can (Inr no_db) blank_trace = Inr \<lparr>nrows = 0, columns = []\<rparr>"
  by (simp add: decode_can_def blank_read no_db_def init_result_def DataFrame_def dropna_def)

section \<open>The decode loop\<close>

lemma int16_error: "int16 s = Inl e \<Longrightarrow> e = ValueError"
  by (simp add: int16_def split: if_splits)

lemma data_bytes_error: "data_bytes xs = Inl e \<Longrightarrow> e = ValueError"
  by (induction xs) (auto simp: int16_def split: if_splits sum.splits)

lemma data_bytes_big:
  "t \<in> set toks \<Longrightarrow> 255 < hex_value t \<Longrightarrow> data_bytes toks = Inl ValueError"
proof (induction toks)
  case Nil
  then show ?case by simp
next
  case (Cons x xs)
  show ?case
  proof (cases "x = t")
    case True
    then show ?thesis using Cons.prems by (simp add: int16_def)
  next
    case False
    then have "data_bytes xs = Inl ValueError" using Cons by simp
    then show ?thesis by (simp add: int16_def)
  qed
qed

lemma scan_lines_lengths:
  "scan_lines pat ls = Inr (ts, ids, ps) \<Longrightarrow> length ids = length ts \<and> length ps = length ts"
  by (induction ls arbitrary: ts ids ps) (auto split: sum.splits option.splits prod.splits)

lemma decode_loop_stops:
  assumes "\<And>idx r. \<exists>e. decode_loop db idx (bad # post) r = Inl e"
  shows "\<exists>e. decode_loop db idx (pre @ bad # post) r = Inl e"
proof (induction pre arbitrary: idx r)
  case Nil
  then show ?case using assms by simp
next
  case (Cons a pre)
  obtain i p where a: "a = (i, p)" by (cases a)
  show ?case using Cons by (auto simp: a split: option.splits sum.splits)
qed

lemma keeps_refl: "keeps J r r"
  by (simp add: keeps_def list_all2_same)

lemma keeps_trans: "keeps J r r' \<Longrightarrow> keeps J' r' r'' \<Longrightarrow> keeps (J \<union> J') r r''"
  unfolding keeps_def
  by (erule (1) list_all2_trans [rotated 1]) auto

lemma keeps_mono: "keeps J r r' \<Longrightarrow> J \<subseteq> J' \<Longrightarrow> keeps J' r r'"
  unfolding keeps_def by (erule list_all2_mono) auto

lemma keeps_keys: "keeps J r r' \<Longrightarrow> map fst r' = map fst r"
  unfolding keeps_def by (induction r r' rule: list_all2_induct) auto

lemma update_keeps_some: "b ! j = Some y \<Longrightarrow> \<exists>y'. b[idx := Some v] ! j = Some y'"
  by (cases "idx < length b"; cases "j = idx") (simp_all add: list_update_beyond)

lemma keeps_assign:
  assumes "distinct (map fst r)" "map_of r k = Some col"
  shows "keeps {idx} r (assign k (col[idx := Some v]) r)"
proof -
  have "c = col" if "(k, c) \<in> set r" for c
    using assms that by (simp add: map_of_eq_Some_iff)
  moreover have "\<exists>y'. col[idx := Some v] ! j = Some y'" if "col ! j = Some y" for j y
    using that by (rule update_keeps_some)
  ultimately show ?thesis
    by (auto simp: keeps_def assign_def list_all2_map2 list_all2_same)
qed

lemma scatter_keeps:
  "distinct (map fst r) \<Longrightarrow> scatter idx kvs r = Inr r' \<Longrightarrow> keeps {idx} r r'"
proof (induction kvs arbitrary: r)
  case Nil
  then show ?case by (simp add: keeps_refl)
next
  case (Cons kv kvs)
  obtain k v where kv: "kv = (k, v)" by (cases kv)
  from Cons.prems obtain col where col: "map_of r k = Some col" "idx < length col"
    and rest: "scatter idx kvs (assign k (col[idx := Some v]) r) = Inr r'"
    by (auto simp: kv split: option.splits if_splits)
  have k1: "keeps {idx} r (assign k (col[idx := Some v]) r)"
    using Cons.prems(1) col(1) by (rule keeps_assign)
  then have "distinct (map fst (assign k (col[idx := Some v]) r))"
    using Cons.prems(1) by (simp add: keeps_keys)
  then have "keeps {idx} (assign k (col[idx := Some v]) r) r'"
    using rest by (rule Cons.IH)
  with k1 show ?case using keeps_trans by fastforce
qed

lemma hits_Cons_miss:
  "get_message_by_frame_id db i = None \<Longrightarrow> hits db (Suc idx) rest \<subseteq> hits db idx ((i, p) # rest)"
  by (auto simp: hits_def nth_Cons')

lemma hits_Cons_hit:
  "get_message_by_frame_id db i \<noteq> None \<Longrightarrow>
     {idx} \<union> hits db (Suc idx) rest \<subseteq> hits db idx ((i, p) # rest)"
  by (auto simp: hits_def nth_Cons')

lemma decode_loop_keeps:
  "distinct (map fst r) \<Longrightarrow> decode_loop db idx recs r = Inr r' \<Longrightarrow> keeps (hits db idx recs) r r'"
proof (induction recs arbitrary: idx r)
  case Nil
  then show ?case by (simp add: keeps_refl)
next
  case (Cons a recs)
  obtain i p where a: "a = (i, p)" by (cases a)
  show ?case
  proof (cases "get_message_by_frame_id db i")
    case None
    then have "decode_loop db (Suc idx) recs r = Inr r'" using Cons.prems by (simp add: a)
    then have "keeps (hits db (Suc idx) recs) r r'" using Cons.prems(1) Cons.IH by blast
    then show ?thesis unfolding a using hits_Cons_miss [OF None] by (rule keeps_mono)
  next
    case (Some msg)
    from Cons.prems(2) obtain bs decoded r1 where
      "scatter idx decoded r = Inr r1" and rest: "decode_loop db (Suc idx) recs r1 = Inr r'"
      by (auto simp: a Some split: sum.splits)
    then have k1: "keeps {idx} r r1" using Cons.prems(1) scatter_keeps by blast
    then have "distinct (map fst r1)" using Cons.prems(1) by (simp add: keeps_keys)
    then have "keeps (hits db (Suc idx) recs) r1 r'" using rest Cons.IH by blast
    with k1 have "keeps ({idx} \<union> hits db (Suc idx) recs) r r'" by (rule keeps_trans)
    moreover have "get_message_by_frame_id db i \<noteq> None" using Some by simp
    ultimately show ?thesis unfolding a using hits_Cons_hit by (blast intro: keeps_mono)
  qed
qed

lemma setdefault_fold:
  assumes "distinct (map fst d)"
  shows "\<exists>rest. foldl (\<lambda>r s. setdefault s v r) d names = d @ rest
           \<and> (\<forall>(k, c) \<in> set rest. c = v)
           \<and> distinct (map fst (d @ rest))
           \<and> set (map fst rest) = set names - set (map fst d)"
  using assms
proof (induction names arbitrary: d)
  case Nil
  then show ?case by simp
next
  case (Cons s names)
  show ?case
  proof (cases "map_of d s")
    case None
    then have notin: "s \<notin> set (map fst d)" by (simp add: map_of_eq_None_iff)
    have sd: "setdefault s v d = d @ [(s, v)]" using None by (simp add: setdefault_def)
    have "distinct (map fst (d @ [(s, v)]))" using Cons.prems notin by simp
    from Cons.IH [OF this] obtain rest where
      rest: "foldl (\<lambda>r s. setdefault s v r) (d @ [(s, v)]) names = (d @ [(s, v)]) @ rest"
        "\<forall>(k, c) \<in> set rest. c = v" "distinct (map fst ((d @ [(s, v)]) @ rest))"
        "set (map fst rest) = set names - set (map fst (d @ [(s, v)]))"
      by blast
    have "set (map fst ((s, v) # rest)) = set (s # names) - set (map fst d)"
      using rest(4) notin by auto
    then show ?thesis
      using rest(1,2,3) sd by (intro exI [of _ "(s, v) # rest"]) simp
  next
    case (Some c)
    then have isin: "s \<in> set (map fst d)"
      by (metis map_of_eq_None_iff option.distinct(1) set_map)
    have sd: "setdefault s v d = d" using Some by (simp add: setdefault_def)
    from Cons.IH [OF Cons.prems] obtain rest where
      rest: "foldl (\<lambda>r s. setdefault s v r) d names = d @ rest"
        "\<forall>(k, c) \<in> set rest. c = v" "distinct (map fst (d @ rest))"
        "set (map fst rest) = set names - set (map fst d)"
      by blast
    have "set (map fst rest) = set (s # names) - set (map fst d)"
      using rest(4) isin by auto
    then show ?thesis using rest(1,2,3) sd by (intro exI [of _ rest]) simp
  qed
qed

lemma init_result_shape:
  "\<exists>rest. init_result db ts = (''Timestamp'', map Some ts) # rest
     \<and> (\<forall>(k, c) \<in> set rest. c = replicate (length ts) None)
     \<and> distinct (map fst (init_result db ts))
     \<and> set (map fst rest) = set (concat (map signals (messages db))) - {''Timestamp''}"
proof -
  have "distinct (map fst [(''Timestamp'', map Some ts)])" by simp
  from setdefault_fold [OF this, of "replicate (length ts) None" "concat (map signals (messages db))"]
  show ?thesis unfolding init_result_def by auto
qed

lemma keeps_Cons:
  assumes "keeps J ((k, c) # rest) r'"
  obtains c' rest' where "r' = (k, c') # rest'" "length c' = length c"
    "\<And>j. j \<notin> J \<Longrightarrow> c' ! j = c ! j" "\<And>j. c ! j \<noteq> None \<Longrightarrow> c' ! j \<noteq> None"
    "keeps J rest rest'"
proof -
  from assms obtain b rest' where b: "r' = b # rest'" "fst b = k" "length (snd b) = length c"
    "\<forall>j. j \<notin> J \<longrightarrow> snd b ! j = c ! j" "\<forall>j. c ! j \<noteq> None \<longrightarrow> snd b ! j \<noteq> None"
    "keeps J rest rest'"
    unfolding keeps_def by (auto simp: list_all2_Cons1)
  show ?thesis
    using b by (intro that [of "snd b" rest']) (cases b; simp)+
qed

lemma keeps_in_set:
  assumes "keeps J r r'" "(k, c') \<in> set r'"
  obtains c where "(k, c) \<in> set r" "length c' = length c"
    "\<And>j. j \<notin> J \<Longrightarrow> c' ! j = c ! j"
proof -
  from assms(2) obtain n where n: "n < length r'" "r' ! n = (k, c')"
    by (auto simp: in_set_conv_nth)
  have l: "list_all2 (\<lambda>a b. fst b = fst a \<and> length (snd b) = length (snd a)
                  \<and> (\<forall>j. j \<notin> J \<longrightarrow> snd b ! j = snd a ! j)
                  \<and> (\<forall>j. snd a ! j \<noteq> None \<longrightarrow> snd b ! j \<noteq> None)) r r'"
    using assms(1) by (simp add: keeps_def)
  from list_all2_nthD2 [OF l n(1)] n(2)
  have p: "fst (r ! n) = k" "length c' = length (snd (r ! n))"
    "\<forall>j. j \<notin> J \<longrightarrow> c' ! j = snd (r ! n) ! j"
    by simp_all
  have "n < length r" using l n(1) by (simp add: list_all2_lengthD)
  then have "r ! n \<in> set r" by simp
  then have "(k, snd (r ! n)) \<in> set r" using p(1) by (metis prod.collapse)
  then show ?thesis using p by (intro that [of "snd (r ! n)"]) simp_all
qed

lemma hits_miss:
  "i < length recs \<Longrightarrow> get_message_by_frame_id db (fst (recs ! i)) = None \<Longrightarrow> i \<notin> hits db 0 recs"
  by (simp add: hits_def)

lemma decode_can_Inr:
  assumes "decode_can (Inr db) trc = Inr df" "read_trace trc = Inr (ts, ids, ps)"
  obtains r where "decode_loop db 0 (zip ids ps) (init_result db ts) = Inr r"
    "keeps (hits db 0 (zip ids ps)) (init_result db ts) r"
    "df = \<lparr>nrows = length ts, columns = filter (\<lambda>(k, c). list_ex (\<lambda>x. x \<noteq> None) c) r\<rparr>"
proof -
  from assms obtain r df0 where r: "decode_loop db 0 (zip ids ps) (init_result db ts) = Inr r"
    and df0: "DataFrame r = Inr df0" and df: "df = dropna df0"
    by (auto simp: decode_can_def split: sum.splits)
  obtain rest where init: "init_result db ts = (''Timestamp'', map Some ts) # rest"
    and dist: "distinct (map fst (init_result db ts))"
    using init_result_shape by blast
  have k: "keeps (hits db 0 (zip ids ps)) (init_result db ts) r"
    using dist r by (rule decode_loop_keeps)
  then obtain c' rest' where r': "r = (''Timestamp'', c') # rest'" "length c' = length ts"
    unfolding init by (rule keeps_Cons) simp
  have "df0 = \<lparr>nrows = length ts, columns = r\<rparr>"
    using df0 r' by (auto simp: DataFrame_def split: if_splits)
  then show ?thesis using r k df by (intro that [of r]) (simp_all add: dropna_def)
qed

section \<open>Evaluation of the example traces\<close>

lemma scan_lines_skip:
  "list_all (\<lambda>l. parse_line pat l = Inr None) pre \<Longrightarrow> scan_lines pat (pre @ post) = scan_lines pat post"
  by (induction pre) simp_all

lemma header_v1_none: "list_all (\<lambda>l. parse_line pattern_v1 l = Inr None) header_v1"
  by code_simp

lemma header_v1_version: "file_version (header_v1 @ [l]) = ''1.1''"
proof -
  have "contains '';$FILEVERSION='' (eol '';$FILEVERSION=1.1'')" by code_simp
  then have "version_line (header_v1 @ [l]) = eol '';$FILEVERSION=1.1''"
    by (simp add: version_line_def header_v1_def)
  moreover have "last (split_on (CHR ''='') (strip (eol '';$FILEVERSION=1.1''))) = ''1.1''"
    by code_simp
  ultimately show ?thesis by (simp add: file_version_def)
qed

lemma read_trace_header_v1: "read_trace (header_v1 @ [l]) = scan_lines pattern_v1 [l]"
proof -
  have "length (header_v1 @ [l]) = 10" by (simp add: header_v1_def)
  then have "read_header (header_v1 @ [l]) = Inr (header_v1 @ [l])"
    by (simp add: read_header_def)
  then show ?thesis
    by (simp add: read_trace_def header_v1_version select_pattern_def
        scan_lines_skip [OF header_v1_none])
qed

lemma speed_line_parse: "parse_line pattern_v1 speed_line = Inr (Some (25 / 2, 256, ''64 00''))"
  by code_simp

lemma wide_line_parse: "parse_line pattern_v1 wide_line = Inr (Some (25 / 2, 256, ''164 00''))"
  by code_simp

lemma speed_trace_read: "read_trace speed_trace = Inr ([25 / 2], [256], [''64 00''])"
  by (simp add: speed_trace_def read_trace_header_v1 speed_line_parse)

lemma wide_trace_read: "read_trace wide_trace = Inr ([25 / 2], [256], [''164 00''])"
  by (simp add: wide_trace_def read_trace_header_v1 wide_line_parse)

lemma speed_db_lookup:
  "get_message_by_frame_id speed_db 256 = Some (make_message 256 2 [speed_signal])"
  by (simp add: speed_db_def make_database_def make_message_def)

lemma no_db_decode_speed:
  "decode_can (Inr no_db) speed_trace = Inr \<lparr>nrows = 1, columns = [(''Timestamp'', [Some (25 / 2)])]\<rparr>"
  by (simp add: decode_can_def speed_trace_read no_db_def init_result_def DataFrame_def dropna_def
      del: not_None_eq)

lemma payload_64_00: "data_bytes (split_ws ''64 00'') = Inr [100, 0]"
  by code_simp

lemma speed_raw: "raw_value \<lparr>name = n, start_bit = 0, bit_length = 16, scale = s, offset = k\<rparr> [100, 0] = 100"
  by (simp add: raw_value_def le_value_def)

lemma speed_decode:
  "decode_can (Inr speed_db) speed_trace
     = Inr \<lparr>nrows = 1, columns = [(''Timestamp'', [Some (25 / 2)]), (''Speed'', [Some 10])]\<rparr>"
  by (simp add: decode_can_def speed_trace_read speed_db_def make_database_def make_message_def
      speed_signal_def init_result_def setdefault_def payload_64_00 decode_signals_def speed_raw
      assign_def DataFrame_def dropna_def del: not_None_eq)

lemma two_db_decode:
  "decode_can (Inr two_db) speed_trace
     = Inr \<lparr>nrows = 1, columns = [(''Timestamp'', [Some (25 / 2)]), (''Speed'', [Some 10])]\<rparr>"
  by (simp add: decode_can_def speed_trace_read two_db_def make_database_def make_message_def
      speed_signal_def rpm_signal_def init_result_def setdefault_def payload_64_00
      decode_signals_def speed_raw assign_def DataFrame_def dropna_def del: not_None_eq)

lemma stamp_db_init: "init_result stamp_db [25 / 2] = [(''Timestamp'', [Some (25 / 2)])]"
  by (simp add: stamp_db_def make_database_def make_message_def stamp_signal_def
      init_result_def setdefault_def)

lemma stamp_db_decode:
  "decode_can (Inr stamp_db) speed_trace = Inr \<lparr>nrows = 1, columns = [(''Timestamp'', [Some 10])]\<rparr>"
  by (simp add: decode_can_def speed_trace_read stamp_db_def make_database_def make_message_def
      stamp_signal_def init_result_def setdefault_def payload_64_00 decode_signals_def speed_raw
      assign_def DataFrame_def dropna_def del: not_None_eq)

section \<open>The returned table\<close>

lemma decode_can_Inr_args:
  assumes "decode_can dbc trc = Inr df"
  obtains db ts ids ps where "dbc = Inr db" "read_trace trc = Inr (ts, ids, ps)"
proof (cases dbc)
  case (Inl e)
  then show ?thesis using assms by (simp add: decode_can_def)
next
  case (Inr db)
  show ?thesis
  proof (cases "read_trace trc")
    case (Inl e)
    then show ?thesis using assms Inr by (simp add: decode_can_def)
  next
    case r: (Inr t)
    obtain ts ids ps where "t = (ts, ids, ps)" by (cases t)
    then show ?thesis using Inr r that by simp
  qed
qed

lemma timestamp_column_kept:
  assumes "keeps J (init_result db ts) r" "ts \<noteq> []"
  shows "\<exists>c. (''Timestamp'', c) \<in> set (filter (\<lambda>(k, c). \<exists>x \<in> set c. x \<noteq> None) r)"
proof -
  obtain rest where init: "init_result db ts = (''Timestamp'', map Some ts) # rest"
    using init_result_shape by blast
  from assms(1) [unfolded init] obtain ct rest' where r': "r = (''Timestamp'', ct) # rest'"
    and len: "length ct = length ts"
    and ct: "\<And>j. map Some ts ! j \<noteq> None \<Longrightarrow> ct ! j \<noteq> None"
    by (rule keeps_Cons) simp
  have 0: "0 < length ts" using assms(2) by simp
  then have "map Some ts ! 0 \<noteq> None" by simp
  then have "ct ! 0 \<noteq> None" by (rule ct)
  have "ct ! 0 \<in> set ct" using 0 len by simp
  then have "\<exists>x \<in> set ct. x \<noteq> None" using \<open>ct ! 0 \<noteq> None\<close> by (rule rev_bexI)
  then have "(''Timestamp'', ct) \<in> set (filter (\<lambda>(k, c). \<exists>x \<in> set c. x \<noteq> None) r)"
    by (simp add: r')
  then show ?thesis by (rule exI)
qed

section \<open>The version marker\<close>

lemma starts_with_append: "starts_with m (m @ post)"
  by (induction m) simp_all

lemma contains_append: "contains m (pre @ m @ post)"
proof (induction pre)
  case Nil
  show ?case
  proof (cases "m @ post")
    case Nil
    then show ?thesis by simp
  next
    case (Cons c cs)
    have "starts_with m (m @ post)" by (rule starts_with_append)
    then show ?thesis using Cons by simp
  qed
next
  case (Cons c pre)
  then show ?case by simp
qed

lemma split_on_not_Nil: "split_on c s \<noteq> []"
  by (induction s) (auto split: list.splits)

lemma split_on_no_sep: "c \<notin> set b \<Longrightarrow> split_on c b = [b]"
  by (induction b) auto

lemma split_on_append: "split_on c (a @ c # b) = split_on c a @ split_on c b"
proof (induction a)
  case Nil
  show ?case by simp
next
  case (Cons x a)
  obtain w ws where w: "split_on c a = w # ws"
    using split_on_not_Nil [of c a] by (cases "split_on c a") auto
  show ?case using Cons w by simp
qed

lemma last_split_on: "c \<notin> set b \<Longrightarrow> last (split_on c (a @ c # b)) = b"
  by (simp add: split_on_append split_on_no_sep)

lemma is_space_eq: "\<not> is_space (CHR ''='')"
  by (simp add: is_space_def code_def)

lemma strip_keeps_tail:
  assumes "x \<in> set y" "\<not> is_space x"
    and "list_all is_space ws"
    and "tok \<noteq> [] \<longrightarrow> \<not> is_space (last tok)"
  shows "strip (y @ CHR ''='' # tok @ ws) = dropWhile is_space y @ CHR ''='' # tok"
proof -
  have 1: "dropWhile is_space (y @ CHR ''='' # tok @ ws) = dropWhile is_space y @ CHR ''='' # tok @ ws"
    using assms(1,2) by (simp add: dropWhile_append1)
  have 2: "rev (dropWhile is_space y @ CHR ''='' # tok @ ws)
             = rev ws @ (rev tok @ CHR ''='' # rev (dropWhile is_space y))"
    by simp
  have 3: "dropWhile is_space (rev ws @ (rev tok @ CHR ''='' # rev (dropWhile is_space y)))
             = dropWhile is_space (rev tok @ CHR ''='' # rev (dropWhile is_space y))"
    by (rule dropWhile_append2) (use assms(3) in \<open>auto simp: list_all_iff\<close>)
  have 4: "dropWhile is_space (rev tok @ CHR ''='' # rev (dropWhile is_space y))
             = rev tok @ CHR ''='' # rev (dropWhile is_space y)"
  proof (cases tok rule: rev_cases)
    case Nil
    then show ?thesis by (simp add: is_space_eq)
  next
    case (snoc t l)
    then show ?thesis using assms(4) by simp
  qed
  show ?thesis unfolding strip_def 1 2 3 4 by simp
qed

lemma marker_line_version:
  assumes "CHR ''='' \<notin> set tok" and "list_all is_space ws"
    and "tok \<noteq> [] \<longrightarrow> \<not> is_space (last tok)"
  shows "last (split_on (CHR ''='') (strip (pre @ '';$FILEVERSION='' @ tok @ ws))) = tok"
proof -
  have e: "pre @ '';$FILEVERSION='' @ tok @ ws = (pre @ '';$FILEVERSION'') @ CHR ''='' # tok @ ws"
    by simp
  have "CHR '';'' \<in> set (pre @ '';$FILEVERSION'')" by simp
  moreover have "\<not> is_space (CHR '';'')" by (simp add: is_space_def code_def)
  ultimately have "strip ((pre @ '';$FILEVERSION'') @ CHR ''='' # tok @ ws)
      = dropWhile is_space (pre @ '';$FILEVERSION'') @ CHR ''='' # tok"
    using assms(2,3) by (rule strip_keeps_tail)
  moreover have "last (split_on (CHR ''='')
      (dropWhile is_space (pre @ '';$FILEVERSION'') @ CHR ''='' # tok)) = tok"
    using assms(1) by (rule last_split_on)
  ultimately show ?thesis unfolding e by (simp only:)
qed

lemma find_first:
  "\<forall>l \<in> set before. \<not> P l \<Longrightarrow> P x \<Longrightarrow> List.find P (before @ x # after) = Some x"
  by (induction before) simp_all

lemma find_none: "\<forall>l \<in> set xs. \<not> P l \<Longrightarrow> List.find P xs = None"
  by (induction xs) simp_all

lemma file_version_marker:
  assumes "\<forall>l \<in> set before. \<not> contains '';$FILEVERSION='' l"
    and "CHR ''='' \<notin> set tok" and "list_all is_space ws"
    and "tok \<noteq> [] \<longrightarrow> \<not> is_space (last tok)"
  shows "file_version (before @ (pre @ '';$FILEVERSION='' @ tok @ ws) # after) = tok"
proof -
  have "contains '';$FILEVERSION='' (pre @ '';$FILEVERSION='' @ tok @ ws)"
    using contains_append [of "'';$FILEVERSION=''" pre "tok @ ws"] by simp
  with assms(1) have "List.find (contains '';$FILEVERSION='')
      (before @ (pre @ '';$FILEVERSION='' @ tok @ ws) # after) = Some (pre @ '';$FILEVERSION='' @ tok @ ws)"
    by (rule find_first)
  then have "version_line (before @ (pre @ '';$FILEVERSION='' @ tok @ ws) # after)
      = pre @ '';$FILEVERSION='' @ tok @ ws"
    by (simp only: version_line_def option.case)
  then show ?thesis
    unfolding file_version_def using marker_line_version [OF assms(2,3,4)] by simp
qed

lemma file_version_no_marker:
  assumes "\<forall>l \<in> set header. \<not> contains '';$FILEVERSION='' l"
  shows "file_version header = []"
proof -
  have "List.find (contains '';$FILEVERSION='') header = None" using assms by (rule find_none)
  then have "version_line header = []" by (simp only: version_line_def option.case)
  then show ?thesis by (simp add: file_version_def strip_def)
qed

lemma patterns_distinct:
  "pattern_v1 \<noteq> pattern_v2 \<and> pattern_v1 \<noteq> pattern_v3 \<and> pattern_v2 \<noteq> pattern_v3"
  by (simp add: pattern_v1_def pattern_v2_def pattern_v3_def)

section \<open>The matcher\<close>

lemma match_Star:
  assumes "list_all (in_cls c) t" "stops c s" "match_pieces ps s = Some ts"
  shows "match_pieces (Star c # ps) (t @ s) = Some (t # ts)"
  using assms(1)
proof (induction t)
  case Nil
  show ?case using assms(2,3) by (cases s) (simp_all add: stops_def)
next
  case (Cons x t)
  then show ?case by simp
qed

lemma match_Plus:
  assumes "t \<noteq> []" "list_all (in_cls c) t" "stops c s" "match_pieces ps s = Some ts"
  shows "match_pieces (Plus c # ps) (t @ s) = Some (t # ts)"
proof -
  obtain x t' where t: "t = x # t'" using assms(1) by (cases t) auto
  have "match_pieces (Star c # ps) (t' @ s) = Some (t' # ts)"
    using assms(2,3,4) unfolding t by (intro match_Star) simp_all
  then show ?thesis using assms(2) unfolding t by simp
qed

lemma match_One:
  assumes "in_cls c x" "match_pieces ps s = Some ts"
  shows "match_pieces (One c # ps) ([x] @ s) = Some ([x] # ts)"
  using assms by simp

lemma match_shape: "shape ps ts rest \<Longrightarrow> match_pieces ps (concat ts @ rest) = Some ts"
proof (induction ps ts rest rule: shape.induct)
  case (1 rest)
  show ?case by simp
next
  case (2 c ps t ts rest)
  then obtain x where "t = [x]" "in_cls c x"
    by (auto split: list.splits)
  then show ?case using 2 match_One [of c x ps "concat ts @ rest" ts] by simp
next
  case (3 c ps t ts rest)
  then show ?case using match_Star [of c t "concat ts @ rest" ps ts] by simp
next
  case (4 c ps t ts rest)
  then show ?case using match_Plus [of t c "concat ts @ rest" ps ts] by simp
qed simp_all

lemma match_sound: "match_pieces ps s = Some ts \<Longrightarrow> list_all2 fits ps ts"
proof (induction ps s arbitrary: ts rule: match_pieces.induct)
  case (1 s)
  then show ?case by simp
next
  case (2 c ps)
  then show ?case by simp
next
  case (3 c ps x xs)
  then show ?case by (auto split: if_splits)
next
  case (4 c ps)
  then show ?case by auto
next
  case (5 c ps x xs)
  show ?case
  proof (cases "in_cls c x")
    case False
    then show ?thesis using 5 by auto
  next
    case True
    show ?thesis
    proof (cases "match_pieces (Star c # ps) xs")
      case None
      then show ?thesis using 5 True by auto
    next
      case (Some rs)
      show ?thesis
      proof (cases rs)
        case Nil
        then show ?thesis using 5 True Some by auto
      next
        case (Cons r rs')
        then have "list_all2 fits (Star c # ps) (r # rs')" using "5.IH"(1) True Some by simp
        moreover have "ts = (x # r) # rs'" using "5.prems" True Some Cons by simp
        ultimately show ?thesis using True by simp
      qed
    qed
  qed
next
  case (6 c ps)
  then show ?case by simp
next
  case (7 c ps x xs)
  show ?case
  proof (cases "in_cls c x")
    case False
    then show ?thesis using 7 by simp
  next
    case True
    show ?thesis
    proof (cases "match_pieces (Star c # ps) xs")
      case None
      then show ?thesis using 7 True by simp
    next
      case (Some rs)
      show ?thesis
      proof (cases rs)
        case Nil
        then show ?thesis using 7 True Some by simp
      next
        case (Cons r rs')
        then have "list_all2 fits (Star c # ps) (r # rs')" using "7.IH" True Some by simp
        moreover have "ts = (x # r) # rs'" using "7.prems" True Some Cons by simp
        ultimately show ?thesis using True by simp
      qed
    qed
  qed
qed

section \<open>Fields of a line\<close>

lemma digit_not_space: "is_digit c \<Longrightarrow> \<not> is_space c"
  by (auto simp: is_digit_def is_space_def)

lemma hex_not_space: "is_hex c \<Longrightarrow> \<not> is_space c"
  by (auto simp: is_hex_def is_space_def)

lemma word_not_space: "is_word c \<Longrightarrow> \<not> is_space c"
  by (auto simp: is_word_def is_space_def)

lemma space_not_digit: "is_space c \<Longrightarrow> \<not> is_digit c"
  by (auto simp: is_digit_def is_space_def)

lemma space_not_hex: "is_space c \<Longrightarrow> \<not> is_hex c"
  by (auto simp: is_hex_def is_space_def)

lemma space_not_word: "is_space c \<Longrightarrow> \<not> is_word c"
  by (auto simp: is_word_def is_space_def)

lemma literal_classes:
  "\<not> is_digit (CHR '')'')" "\<not> is_digit (CHR ''.'')" "\<not> is_space (CHR ''D'')"
  "\<not> is_space (CHR ''R'')" "\<not> is_space (CHR ''-'')"
  by (simp_all add: is_digit_def is_space_def code_def)

lemma run1_hd: "run1 P s \<Longrightarrow> P (hd s)"
  by (cases s) (simp_all add: run1_def)

lemma run1_last: "run1 P s \<Longrightarrow> P (last s)"
  by (cases s rule: rev_cases) (simp_all add: run1_def)

lemma run1_all: "run1 P s \<Longrightarrow> list_all P s"
  by (simp add: run1_def)

lemma run1_not_Nil: "run1 P s \<Longrightarrow> s \<noteq> []"
  by (simp add: run1_def)

lemma stops_run: "t \<noteq> [] \<Longrightarrow> \<not> in_cls c (hd t) \<Longrightarrow> stops c (t @ s)"
  by (cases t) (simp_all add: stops_def)

lemma stops_Cons: "\<not> in_cls c x \<Longrightarrow> stops c (x # s)"
  by (simp add: stops_def)

lemma float_str_decimal:
  assumes "run1 is_digit ip" "run1 is_digit fp"
  shows "float_str (ip @ ''.'' @ fp) = Inr (decimal ip fp)"
proof -
  have "takeWhile is_digit (ip @ CHR ''.'' # fp) = ip"
    using assms(1) by (simp add: run1_def list_all_iff takeWhile_tail literal_classes)
  moreover have "dropWhile is_digit (ip @ CHR ''.'' # fp) = CHR ''.'' # fp"
    using assms(1) by (simp add: run1_def list_all_iff dropWhile_append3 literal_classes)
  ultimately show ?thesis using assms by (simp add: float_str_def run1_def)
qed

lemma int16_hex: "run1 is_hex s \<Longrightarrow> int16 s = Inr (hex_value s)"
  by (simp add: int16_def run1_def)

lemma strip_trailing:
  assumes "p \<noteq> []" "\<not> is_space (hd p)" "\<not> is_space (last p)" "list_all is_space t"
  shows "strip (p @ t) = p"
proof -
  obtain x p' where p: "p = x # p'" using assms(1) by (cases p) auto
  obtain q y where q: "p = q @ [y]" using assms(1) by (cases p rule: rev_cases) auto
  have 1: "dropWhile is_space (p @ t) = p @ t" using assms(2) by (simp add: p)
  have 2: "dropWhile is_space (rev t @ rev p) = dropWhile is_space (rev p)"
    by (rule dropWhile_append2) (use assms(4) in \<open>auto simp: list_all_iff\<close>)
  have 3: "dropWhile is_space (rev p) = rev p" using assms(3) by (simp add: q)
  show ?thesis unfolding strip_def 1 by (simp add: 2 3)
qed

lemma split_aux_word:
  "list_all (\<lambda>c. \<not> is_space c) t \<Longrightarrow> split_aux w (t @ s) = split_aux (w @ t) s"
  by (induction t arbitrary: w) simp_all

lemma split_aux_spaces: "list_all is_space sp \<Longrightarrow> split_aux [] (sp @ s) = split_aux [] s"
  by (induction sp) simp_all

lemma split_aux_gap:
  assumes "w \<noteq> []" "run1 is_space sp"
  shows "split_aux w (sp @ s) = w # split_aux [] s"
proof -
  obtain c sp' where sp: "sp = c # sp'" "is_space c" "list_all is_space sp'"
    using assms(2) by (cases sp) (auto simp: run1_def)
  show ?thesis using assms(1) sp split_aux_spaces [of sp' s] by simp
qed

lemma split_aux_pairs:
  "w \<noteq> [] \<Longrightarrow> byte_pairs prs \<Longrightarrow>
     split_aux w (concat (map (\<lambda>(s, t). s @ t) prs)) = w # map snd prs"
proof (induction prs arbitrary: w)
  case Nil
  then show ?case by simp
next
  case (Cons a prs)
  obtain s t where a: "a = (s, t)" by (cases a)
  have s: "run1 is_space s" and t: "run1 is_hex t" and m: "byte_pairs prs"
    using Cons.prems(2) by (simp_all add: a byte_pairs_def)
  have tn: "list_all (\<lambda>c. \<not> is_space c) t"
    using t by (auto simp: run1_def list_all_iff hex_not_space)
  have "split_aux w ((s @ t) @ concat (map (\<lambda>(s, t). s @ t) prs))
      = w # split_aux [] (t @ concat (map (\<lambda>(s, t). s @ t) prs))"
    using split_aux_gap [OF Cons.prems(1) s] by simp
  also have "split_aux [] (t @ concat (map (\<lambda>(s, t). s @ t) prs))
      = split_aux t (concat (map (\<lambda>(s, t). s @ t) prs))"
    using split_aux_word [OF tn, of "[]"] by simp
  also have "\<dots> = t # map snd prs"
    using t m by (intro Cons.IH) (simp_all add: run1_def)
  finally show ?case by (simp add: a)
qed

lemma pairs_last_hex:
  "b \<noteq> [] \<Longrightarrow> is_hex (last b) \<Longrightarrow> byte_pairs prs \<Longrightarrow>
     is_hex (last (b @ concat (map (\<lambda>(s, t). s @ t) prs)))"
proof (induction prs arbitrary: b)
  case Nil
  then show ?case by simp
next
  case (Cons a prs)
  obtain s t where a: "a = (s, t)" by (cases a)
  have t: "run1 is_hex t" and m: "byte_pairs prs"
    using Cons.prems(3) by (simp_all add: a byte_pairs_def)
  have "is_hex (last ((b @ s @ t) @ concat (map (\<lambda>(s, t). s @ t) prs)))"
  proof (rule Cons.IH)
    show "b @ s @ t \<noteq> []" using Cons.prems(1) by simp
    show "is_hex (last (b @ s @ t))" using t by (simp add: run1_def run1_last)
    show "byte_pairs prs" by (rule m)
  qed
  then show ?case by (simp add: a)
qed

lemma pairs_all_hexspace:
  "byte_pairs prs \<Longrightarrow> list_all (in_cls HexSpace) (concat (map (\<lambda>(s, t). s @ t) prs))"
  by (induction prs) (auto simp: byte_pairs_def run1_def list_all_iff)

section \<open>Lines in the shape of a grammar\<close>

lemma cls_funs:
  "in_cls Space = is_space" "in_cls Digit = is_digit" "in_cls Word = is_word"
  "in_cls Hex = is_hex" "in_cls HexSpace = (\<lambda>c. is_hex c \<or> is_space c)"
  by (rule ext, simp)+

lemma space_run:
  "run1 is_space g \<Longrightarrow>
     g \<noteq> [] \<and> list_all is_space g \<and> \<not> is_digit (hd g) \<and> \<not> is_word (hd g) \<and> \<not> is_hex (hd g)"
  using run1_hd [of is_space g]
  by (simp add: run1_def space_not_digit space_not_word space_not_hex)

lemma digit_run: "run1 is_digit d \<Longrightarrow> d \<noteq> [] \<and> list_all is_digit d \<and> \<not> is_space (hd d)"
  using run1_hd [of is_digit d] by (simp add: run1_def digit_not_space)

lemma word_run: "run1 is_word d \<Longrightarrow> d \<noteq> [] \<and> list_all is_word d \<and> \<not> is_space (hd d)"
  using run1_hd [of is_word d] by (simp add: run1_def word_not_space)

lemma hex_run: "run1 is_hex d \<Longrightarrow> d \<noteq> [] \<and> list_all is_hex d \<and> \<not> is_space (hd d)"
  using run1_hd [of is_hex d] by (simp add: run1_def hex_not_space)

lemma gap_run: "well_formed f \<Longrightarrow> i < 8 \<Longrightarrow> run1 is_space (gap f i)"
  by (simp add: well_formed_def gap_def list_all_length)

lemma wf_pairs: "well_formed f \<Longrightarrow> byte_pairs (more_bytes f)"
  by (simp add: well_formed_def byte_pairs_def)

lemma payload_run:
  assumes "well_formed f"
  shows "payload f \<noteq> [] \<and> \<not> is_space (hd (payload f))
       \<and> list_all (\<lambda>c. is_hex c \<or> is_space c) (payload f)
       \<and> list_all (\<lambda>c. is_hex c \<or> is_space c) (trail f)"
proof -
  have b: "run1 is_hex (byte0 f)" and t: "list_all is_space (trail f)"
    using assms by (simp_all add: well_formed_def)
  from hex_run [OF b] have b': "byte0 f \<noteq> []" "list_all is_hex (byte0 f)" "\<not> is_space (hd (byte0 f))"
    by simp_all
  have "list_all (in_cls HexSpace) (concat (map (\<lambda>(s, t). s @ t) (more_bytes f)))"
    using wf_pairs [OF assms] by (rule pairs_all_hexspace)
  then have "list_all (\<lambda>c. is_hex c \<or> is_space c) (concat (map (\<lambda>(s, t). s @ t) (more_bytes f)))"
    by (simp add: cls_funs)
  moreover have "list_all (\<lambda>c. is_hex c \<or> is_space c) (byte0 f)"
    using b'(2) by (simp add: list_all_iff)
  moreover have "list_all (\<lambda>c. is_hex c \<or> is_space c) (trail f)"
    using t by (simp add: list_all_iff)
  ultimately show ?thesis using b' by (simp add: payload_def)
qed

lemma payload_strip: "well_formed f \<Longrightarrow> strip (payload f @ trail f) = payload f"
proof (rule strip_trailing)
  assume wf: "well_formed f"
  show "payload f \<noteq> []" "\<not> is_space (hd (payload f))"
    using payload_run [OF wf] by simp_all
  have b: "run1 is_hex (byte0 f)" using wf by (simp add: well_formed_def)
  have "is_hex (last (byte0 f @ concat (map (\<lambda>(s, t). s @ t) (more_bytes f))))"
    using run1_not_Nil [OF b] run1_last [OF b] wf_pairs [OF wf] by (rule pairs_last_hex)
  then show "\<not> is_space (last (payload f))" by (simp add: payload_def hex_not_space)
  show "list_all is_space (trail f)" using wf by (simp add: well_formed_def)
qed

lemma payload_tokens: "well_formed f \<Longrightarrow> split_ws (payload f) = tokens f"
proof -
  assume wf: "well_formed f"
  have b: "run1 is_hex (byte0 f)" using wf by (simp add: well_formed_def)
  have "list_all (\<lambda>c. \<not> is_space c) (byte0 f)"
    using b by (auto simp: run1_def list_all_iff hex_not_space)
  from split_aux_word [OF this, of "[]"]
  have "split_ws (payload f) = split_aux (byte0 f) (concat (map (\<lambda>(s, t). s @ t) (more_bytes f)))"
    by (simp add: split_ws_def payload_def)
  also have "\<dots> = byte0 f # map snd (more_bytes f)"
    using run1_not_Nil [OF b] wf_pairs [OF wf] by (rule split_aux_pairs)
  finally show ?thesis by (simp add: tokens_def)
qed

lemma ends_payload_stops: "ends_payload rest \<Longrightarrow> stops HexSpace rest"
  by (cases rest) (simp_all add: ends_payload_def stops_def)

lemma match_v1:
  assumes wf: "well_formed f" and e: "ends_payload rest"
  shows "match_pieces (map fst pattern_v1) (line_v1 f @ rest)
     = Some [lead f, number f, '')'', gap f 0, time_int f, ''.'', time_frac f, gap f 1,
             kind f, gap f 2, ident f, gap f 3, dlc f, gap f 4, payload f @ trail f]"
proof -
  note g = space_run [OF gap_run [OF wf]]
  have l: "list_all is_space (lead f)" using wf by (simp add: well_formed_def)
  have n: "run1 is_digit (number f)" "run1 is_digit (time_int f)" "run1 is_digit (time_frac f)"
    "run1 is_digit (dlc f)" "run1 is_word (kind f)" "run1 is_hex (ident f)"
    using wf by (simp_all add: well_formed_def)
  have "shape (map fst pattern_v1)
          [lead f, number f, '')'', gap f 0, time_int f, ''.'', time_frac f, gap f 1,
           kind f, gap f 2, ident f, gap f 3, dlc f, gap f 4, payload f @ trail f] rest"
    unfolding pattern_v1_def
    using l digit_run [OF n(1)] digit_run [OF n(2)] digit_run [OF n(3)] digit_run [OF n(4)]
      word_run [OF n(5)] hex_run [OF n(6)] g [of 0] g [of 1] g [of 2] g [of 3] g [of 4]
      payload_run [OF wf] ends_payload_stops [OF e]
    by (simp add: cls_funs stops_run stops_Cons literal_classes)
  from match_shape [OF this] show ?thesis by (simp add: line_v1_def)
qed

lemma match_v2:
  assumes wf: "well_formed f" and e: "ends_payload rest"
  shows "match_pieces (map fst pattern_v2) (line_v2 f @ rest)
     = Some [lead f, number f, gap f 0, time_int f, ''.'', time_frac f, gap f 1,
             ''D'', ''T'', gap f 2, bus f, gap f 3, ident f, gap f 4,
             ''R'', ''x'', gap f 5, dlc f, gap f 6, payload f @ trail f]"
proof -
  note g = space_run [OF gap_run [OF wf]]
  have l: "list_all is_space (lead f)" using wf by (simp add: well_formed_def)
  have n: "run1 is_digit (number f)" "run1 is_digit (time_int f)" "run1 is_digit (time_frac f)"
    "run1 is_digit (dlc f)" "run1 is_digit (bus f)" "run1 is_hex (ident f)"
    using wf by (simp_all add: well_formed_def)
  have "shape (map fst pattern_v2)
          [lead f, number f, gap f 0, time_int f, ''.'', time_frac f, gap f 1,
           ''D'', ''T'', gap f 2, bus f, gap f 3, ident f, gap f 4,
           ''R'', ''x'', gap f 5, dlc f, gap f 6, payload f @ trail f] rest"
    unfolding pattern_v2_def
    using l digit_run [OF n(1)] digit_run [OF n(2)] digit_run [OF n(3)] digit_run [OF n(4)]
      digit_run [OF n(5)] hex_run [OF n(6)]
      g [of 0] g [of 1] g [of 2] g [of 3] g [of 4] g [of 5] g [of 6]
      payload_run [OF wf] ends_payload_stops [OF e]
    by (simp add: cls_funs stops_run stops_Cons literal_classes)
  from match_shape [OF this] show ?thesis by (simp add: line_v2_def)
qed

lemma match_v3:
  assumes wf: "well_formed f" and e: "ends_payload rest"
  shows "match_pieces (map fst pattern_v3) (line_v3 f @ rest)
     = Some [lead f, number f, gap f 0, time_int f, ''.'', time_frac f, gap f 1,
             ''D'', ''T'', gap f 2, bus f, gap f 3, ident f, gap f 4,
             ''R'', ''x'', gap f 5, ''-'', gap f 6, dlc f, gap f 7, payload f @ trail f]"
proof -
  note g = space_run [OF gap_run [OF wf]]
  have l: "list_all is_space (lead f)" using wf by (simp add: well_formed_def)
  have n: "run1 is_digit (number f)" "run1 is_digit (time_int f)" "run1 is_digit (time_frac f)"
    "run1 is_digit (dlc f)" "run1 is_digit (bus f)" "run1 is_hex (ident f)"
    using wf by (simp_all add: well_formed_def)
  have "shape (map fst pattern_v3)
          [lead f, number f, gap f 0, time_int f, ''.'', time_frac f, gap f 1,
           ''D'', ''T'', gap f 2, bus f, gap f 3, ident f, gap f 4,
           ''R'', ''x'', gap f 5, ''-'', gap f 6, dlc f, gap f 7, payload f @ trail f] rest"
    unfolding pattern_v3_def
    using l digit_run [OF n(1)] digit_run [OF n(2)] digit_run [OF n(3)] digit_run [OF n(4)]
      digit_run [OF n(5)] hex_run [OF n(6)]
      g [of 0] g [of 1] g [of 2] g [of 3] g [of 4] g [of 5] g [of 6] g [of 7]
      payload_run [OF wf] ends_payload_stops [OF e]
    by (simp add: cls_funs stops_run stops_Cons literal_classes)
  from match_shape [OF this] show ?thesis by (simp add: line_v3_def)
qed

lemma wf_numbers:
  assumes "well_formed f"
  shows "float_str (time_int f @ ''.'' @ time_frac f) = Inr (decimal (time_int f) (time_frac f))"
    and "int16 (ident f) = Inr (hex_value (ident f))"
proof -
  have n: "run1 is_digit (time_int f)" "run1 is_digit (time_frac f)" "run1 is_hex (ident f)"
    using assms by (simp_all add: well_formed_def)
  show "float_str (time_int f @ ''.'' @ time_frac f) = Inr (decimal (time_int f) (time_frac f))"
    using n(1,2) by (rule float_str_decimal)
  show "int16 (ident f) = Inr (hex_value (ident f))"
    using n(3) by (rule int16_hex)
qed

lemma parse_v1:
  assumes wf: "well_formed f" and e: "ends_payload rest"
  shows "parse_line pattern_v1 (line_v1 f @ rest)
     = Inr (Some (decimal (time_int f) (time_frac f), hex_value (ident f), payload f))"
proof -
  let ?parts = "[lead f, number f, '')'', gap f 0, time_int f, ''.'', time_frac f, gap f 1,
             kind f, gap f 2, ident f, gap f 3, dlc f, gap f 4, payload f @ trail f]"
  have g: "group 1 pattern_v1 ?parts = time_int f @ ''.'' @ time_frac f"
    "group 2 pattern_v1 ?parts = ident f" "group 4 pattern_v1 ?parts = payload f @ trail f"
    by (simp_all add: group_def pattern_v1_def)
  show ?thesis
    unfolding parse_line_def match_v1 [OF wf e] option.case g wf_numbers [OF wf] sum.case
      payload_strip [OF wf] ..
qed

lemma parse_v2:
  assumes wf: "well_formed f" and e: "ends_payload rest"
  shows "parse_line pattern_v2 (line_v2 f @ rest)
     = Inr (Some (decimal (time_int f) (time_frac f), hex_value (ident f), payload f))"
proof -
  let ?parts = "[lead f, number f, gap f 0, time_int f, ''.'', time_frac f, gap f 1,
             ''D'', ''T'', gap f 2, bus f, gap f 3, ident f, gap f 4,
             ''R'', ''x'', gap f 5, dlc f, gap f 6, payload f @ trail f]"
  have g: "group 1 pattern_v2 ?parts = time_int f @ ''.'' @ time_frac f"
    "group 2 pattern_v2 ?parts = ident f" "group 4 pattern_v2 ?parts = payload f @ trail f"
    by (simp_all add: group_def pattern_v2_def)
  show ?thesis
    unfolding parse_line_def match_v2 [OF wf e] option.case g wf_numbers [OF wf] sum.case
      payload_strip [OF wf] ..
qed

lemma parse_v3:
  assumes wf: "well_formed f" and e: "ends_payload rest"
  shows "parse_line pattern_v3 (line_v3 f @ rest)
     = Inr (Some (decimal (time_int f) (time_frac f), hex_value (ident f), payload f))"
proof -
  let ?parts = "[lead f, number f, gap f 0, time_int f, ''.'', time_frac f, gap f 1,
             ''D'', ''T'', gap f 2, bus f, gap f 3, ident f, gap f 4,
             ''R'', ''x'', gap f 5, ''-'', gap f 6, dlc f, gap f 7, payload f @ trail f]"
  have g: "group 1 pattern_v3 ?parts = time_int f @ ''.'' @ time_frac f"
    "group 2 pattern_v3 ?parts = ident f" "group 4 pattern_v3 ?parts = payload f @ trail f"
    by (simp_all add: group_def pattern_v3_def)
  show ?thesis
    unfolding parse_line_def match_v3 [OF wf e] option.case g wf_numbers [OF wf] sum.case
      payload_strip [OF wf] ..
qed

section \<open>The scan never raises\<close>

lemma fits_simps:
  "fits (One (Lit a)) t \<longleftrightarrow> t = [a]"
  "fits (Plus Digit) t \<longleftrightarrow> run1 is_digit t"
  "fits (Plus Hex) t \<longleftrightarrow> run1 is_hex t"
  by (auto simp: run1_def cls_funs split: list.splits)

lemma parse_total_v1: "\<exists>r. parse_line pattern_v1 l = Inr r"
proof (cases "match_pieces (map fst pattern_v1) l")
  case None
  then show ?thesis by (simp add: parse_line_def)
next
  case (Some ts)
  from match_sound [OF Some] obtain t0 t1 t2 t3 t4 t6 t7 t8 t9 t10 t11 t12 t13 t14 where
    ts: "ts = [t0, t1, t2, t3, t4, ''.'', t6, t7, t8, t9, t10, t11, t12, t13, t14]"
    and d: "run1 is_digit t4" "run1 is_digit t6" "run1 is_hex t10"
    unfolding pattern_v1_def by (auto simp: list_all2_Cons1 fits_simps simp del: fits.simps)
  have "group 1 pattern_v1 ts = t4 @ ''.'' @ t6" "group 2 pattern_v1 ts = t10"
    by (simp_all add: ts group_def pattern_v1_def)
  then show ?thesis
    using float_str_decimal [OF d(1,2)] int16_hex [OF d(3)] by (simp add: parse_line_def Some)
qed

lemma parse_total_v2: "\<exists>r. parse_line pattern_v2 l = Inr r"
proof (cases "match_pieces (map fst pattern_v2) l")
  case None
  then show ?thesis by (simp add: parse_line_def)
next
  case (Some ts)
  from match_sound [OF Some] obtain t0 t1 t2 t3 t5 t6 t7 t8 t9 t10 t11 t12 t13 t14 t15 t16
    t17 t18 t19 where
    ts: "ts = [t0, t1, t2, t3, ''.'', t5, t6, t7, t8, t9, t10, t11, t12, t13, t14, t15, t16,
               t17, t18, t19]"
    and d: "run1 is_digit t3" "run1 is_digit t5" "run1 is_hex t12"
    unfolding pattern_v2_def by (auto simp: list_all2_Cons1 fits_simps simp del: fits.simps)
  have "group 1 pattern_v2 ts = t3 @ ''.'' @ t5" "group 2 pattern_v2 ts = t12"
    by (simp_all add: ts group_def pattern_v2_def)
  then show ?thesis
    using float_str_decimal [OF d(1,2)] int16_hex [OF d(3)] by (simp add: parse_line_def Some)
qed

lemma parse_total_v3: "\<exists>r. parse_line pattern_v3 l = Inr r"
proof (cases "match_pieces (map fst pattern_v3) l")
  case None
  then show ?thesis by (simp add: parse_line_def)
next
  case (Some ts)
  from match_sound [OF Some] obtain t0 t1 t2 t3 t5 t6 t7 t8 t9 t10 t11 t12 t13 t14 t15 t16
    t17 t18 t19 t20 t21 where
    ts: "ts = [t0, t1, t2, t3, ''.'', t5, t6, t7, t8, t9, t10, t11, t12, t13, t14, t15, t16,
               t17, t18, t19, t20, t21]"
    and d: "run1 is_digit t3" "run1 is_digit t5" "run1 is_hex t12"
    unfolding pattern_v3_def by (auto simp: list_all2_Cons1 fits_simps simp del: fits.simps)
  have "group 1 pattern_v3 ts = t3 @ ''.'' @ t5" "group 2 pattern_v3 ts = t12"
    by (simp_all add: ts group_def pattern_v3_def)
  then show ?thesis
    using float_str_decimal [OF d(1,2)] int16_hex [OF d(3)] by (simp add: parse_line_def Some)
qed

lemma scan_total:
  assumes "\<And>l. \<exists>r. parse_line pat l = Inr r"
  shows "\<exists>r. scan_lines pat ls = Inr r"
proof (induction ls)
  case Nil
  show ?case by simp
next
  case (Cons l ls)
  obtain r where r: "parse_line pat l = Inr r" using assms by blast
  obtain ts ids ps where s: "scan_lines pat ls = Inr (ts, ids, ps)"
    using Cons by (metis prod_cases3)
  show ?case
  proof (cases r)
    case None
    then show ?thesis using r s by simp
  next
    case (Some a)
    obtain t i p where "a = (t, i, p)" by (cases a)
    then show ?thesis using r s Some by simp
  qed
qed

lemma scan_skip_one:
  "parse_line pat l = Inr None \<Longrightarrow> scan_lines pat (before @ l # after) = scan_lines pat (before @ after)"
  by (induction before) (simp_all split: sum.splits option.splits)

lemma data_bytes_tokens:
  "list_all (\<lambda>t. run1 is_hex t \<and> hex_value t < 256) toks \<Longrightarrow>
     data_bytes toks = Inr (map hex_value toks)"
  by (induction toks) (simp_all add: int16_hex)

lemma wf_tokens: "well_formed f \<Longrightarrow> list_all (run1 is_hex) (tokens f)"
  by (auto simp: well_formed_def tokens_def list_all_iff)

lemma wf_dlc: "well_formed f \<Longrightarrow> run1 is_digit d \<Longrightarrow> well_formed (f\<lparr>dlc := d\<rparr>)"
  by (simp add: well_formed_def)

section \<open>The example line\<close>

lemma speed_fields_wf: "well_formed speed_fields"
  by (simp add: well_formed_def speed_fields_def run1_def eol_def is_digit_def is_space_def
      is_hex_def is_word_def code_def)

lemma speed_fields_line: "line_v1 speed_fields = speed_line"
  by (simp add: line_v1_def speed_fields_def speed_line_def gap_def payload_def eol_def)

section \<open>Every matching line\<close>

lemma fits_more:
  "fits (Plus HexSpace) t \<longleftrightarrow> t \<noteq> [] \<and> list_all (\<lambda>c. is_hex c \<or> is_space c) t"
  by (simp add: cls_funs)

lemma grammar_groups_v1: "grammar_groups pattern_v1"
  unfolding grammar_groups_def
proof (intro allI impI)
  fix l ts assume "match_pieces (map fst pattern_v1) l = Some ts"
  from match_sound [OF this] obtain t0 t1 t2 t3 t4 t6 t7 t8 t9 t10 t11 t12 t13 t14 where
    ts: "ts = [t0, t1, t2, t3, t4, ''.'', t6, t7, t8, t9, t10, t11, t12, t13, t14]"
    and d: "run1 is_digit t4" "run1 is_digit t6" "run1 is_hex t10" "run1 is_digit t12"
      "list_all (\<lambda>c. is_hex c \<or> is_space c) t14"
    unfolding pattern_v1_def
    by (auto simp: list_all2_Cons1 fits_simps fits_more simp del: fits.simps)
  have g: "group 1 pattern_v1 ts = t4 @ ''.'' @ t6" "group 2 pattern_v1 ts = t10"
    "group 3 pattern_v1 ts = t12" "group 4 pattern_v1 ts = t14"
    by (simp_all add: ts group_def pattern_v1_def)
  show "(\<exists>ip fp. group 1 pattern_v1 ts = ip @ ''.'' @ fp \<and> run1 is_digit ip \<and> run1 is_digit fp)
        \<and> run1 is_hex (group 2 pattern_v1 ts) \<and> run1 is_digit (group 3 pattern_v1 ts)
        \<and> list_all (\<lambda>c. is_hex c \<or> is_space c) (group 4 pattern_v1 ts)"
    unfolding g using d by blast
qed

lemma grammar_groups_v2: "grammar_groups pattern_v2"
  unfolding grammar_groups_def
proof (intro allI impI)
  fix l ts assume "match_pieces (map fst pattern_v2) l = Some ts"
  from match_sound [OF this] obtain t0 t1 t2 t3 t5 t6 t7 t8 t9 t10 t11 t12 t13 t14 t15 t16
    t17 t18 t19 where
    ts: "ts = [t0, t1, t2, t3, ''.'', t5, t6, t7, t8, t9, t10, t11, t12, t13, t14, t15, t16,
               t17, t18, t19]"
    and d: "run1 is_digit t3" "run1 is_digit t5" "run1 is_hex t12" "run1 is_digit t17"
      "list_all (\<lambda>c. is_hex c \<or> is_space c) t19"
    unfolding pattern_v2_def
    by (auto simp: list_all2_Cons1 fits_simps fits_more simp del: fits.simps)
  have g: "group 1 pattern_v2 ts = t3 @ ''.'' @ t5" "group 2 pattern_v2 ts = t12"
    "group 3 pattern_v2 ts = t17" "group 4 pattern_v2 ts = t19"
    by (simp_all add: ts group_def pattern_v2_def)
  show "(\<exists>ip fp. group 1 pattern_v2 ts = ip @ ''.'' @ fp \<and> run1 is_digit ip \<and> run1 is_digit fp)
        \<and> run1 is_hex (group 2 pattern_v2 ts) \<and> run1 is_digit (group 3 pattern_v2 ts)
        \<and> list_all (\<lambda>c. is_hex c \<or> is_space c) (group 4 pattern_v2 ts)"
    unfolding g using d by blast
qed

lemma grammar_groups_v3: "grammar_groups pattern_v3"
  unfolding grammar_groups_def
proof (intro allI impI)
  fix l ts assume "match_pieces (map fst pattern_v3) l = Some ts"
  from match_sound [OF this] obtain t0 t1 t2 t3 t5 t6 t7 t8 t9 t10 t11 t12 t13 t14 t15 t16
    t17 t18 t19 t20 t21 where
    ts: "ts = [t0, t1, t2, t3, ''.'', t5, t6, t7, t8, t9, t10, t11, t12, t13, t14, t15, t16,
               t17, t18, t19, t20, t21]"
    and d: "run1 is_digit t3" "run1 is_digit t5" "run1 is_hex t12" "run1 is_digit t19"
      "list_all (\<lambda>c. is_hex c \<or> is_space c) t21"
    unfolding pattern_v3_def
    by (auto simp: list_all2_Cons1 fits_simps fits_more simp del: fits.simps)
  have g: "group 1 pattern_v3 ts = t3 @ ''.'' @ t5" "group 2 pattern_v3 ts = t12"
    "group 3 pattern_v3 ts = t19" "group 4 pattern_v3 ts = t21"
    by (simp_all add: ts group_def pattern_v3_def)
  show "(\<exists>ip fp. group 1 pattern_v3 ts = ip @ ''.'' @ fp \<and> run1 is_digit ip \<and> run1 is_digit fp)
        \<and> run1 is_hex (group 2 pattern_v3 ts) \<and> run1 is_digit (group 3 pattern_v3 ts)
        \<and> list_all (\<lambda>c. is_hex c \<or> is_space c) (group 4 pattern_v3 ts)"
    unfolding g using d by blast
qed

lemma grammar_groups_any:
  "pat = pattern_v1 \<or> pat = pattern_v2 \<or> pat = pattern_v3 \<Longrightarrow> grammar_groups pat"
  using grammar_groups_v1 grammar_groups_v2 grammar_groups_v3 by blast

lemma split_aux_hex:
  "list_all (\<lambda>c. is_hex c \<or> is_space c) s \<Longrightarrow> w = [] \<or> run1 is_hex w \<Longrightarrow>
     list_all (run1 is_hex) (split_aux w s)"
proof (induction s arbitrary: w)
  case Nil
  then show ?case by auto
next
  case (Cons c cs)
  have cs: "list_all (\<lambda>c. is_hex c \<or> is_space c) cs" using Cons.prems(1) by simp
  show ?case
  proof (cases "is_space c")
    case True
    have "list_all (run1 is_hex) (split_aux [] cs)" using cs by (rule Cons.IH) simp
    then show ?thesis using True Cons.prems(2) by auto
  next
    case False
    then have "is_hex c" using Cons.prems(1) by simp
    then have "run1 is_hex (w @ [c])" using Cons.prems(2) by (auto simp: run1_def)
    then have "list_all (run1 is_hex) (split_aux (w @ [c]) cs)"
      using cs by (intro Cons.IH) simp_all
    then show ?thesis using False by simp
  qed
qed

lemma strip_subset: "set (strip s) \<subseteq> set s"
proof -
  have "set (dropWhile is_space (rev (dropWhile is_space s))) \<subseteq> set (rev (dropWhile is_space s))"
    by (meson set_dropWhileD subsetI)
  moreover have "set (dropWhile is_space s) \<subseteq> set s" by (meson set_dropWhileD subsetI)
  ultimately show ?thesis by (auto simp: strip_def)
qed

lemma payload_hex_tokens:
  assumes "list_all (\<lambda>c. is_hex c \<or> is_space c) s"
  shows "list_all (run1 is_hex) (split_ws (strip s))"
proof -
  have "list_all (\<lambda>c. is_hex c \<or> is_space c) (strip s)"
    using assms strip_subset [of s] by (auto simp: list_all_iff)
  then show ?thesis unfolding split_ws_def by (rule split_aux_hex) simp
qed

lemma data_bytes_hex_tokens:
  "list_all (run1 is_hex) toks \<Longrightarrow>
     data_bytes toks = (if list_all (\<lambda>x. hex_value x < 256) toks
                        then Inr (map hex_value toks) else Inl ValueError)"
proof (induction toks)
  case Nil
  show ?case by simp
next
  case (Cons x toks)
  then have "int16 x = Inr (hex_value x)" by (simp add: int16_hex)
  then show ?case using Cons by simp
qed

lemma matched_record:
  assumes "grammar_groups pat" "match_pieces (map fst pat) l = Some ts"
  shows "\<exists>ip fp. group 1 pat ts = ip @ ''.'' @ fp
           \<and> parse_line pat l
               = Inr (Some (decimal ip fp, hex_value (group 2 pat ts), strip (group 4 pat ts)))
           \<and> list_all (run1 is_hex) (split_ws (strip (group 4 pat ts)))"
proof -
  from assms obtain ip fp where g1: "group 1 pat ts = ip @ ''.'' @ fp"
    and d: "run1 is_digit ip" "run1 is_digit fp"
    and h: "run1 is_hex (group 2 pat ts)"
    and p: "list_all (\<lambda>c. is_hex c \<or> is_space c) (group 4 pat ts)"
    unfolding grammar_groups_def by blast
  have f: "float_str (group 1 pat ts) = Inr (decimal ip fp)"
    unfolding g1 using d by (rule float_str_decimal)
  have "parse_line pat l
      = Inr (Some (decimal ip fp, hex_value (group 2 pat ts), strip (group 4 pat ts)))"
    unfolding parse_line_def assms(2) option.case f int16_hex [OF h] sum.case ..
  then show ?thesis using g1 payload_hex_tokens [OF p] by blast
qed

lemma speed_line_match:
  "match_pieces (map fst pattern_v1) speed_line
     = Some [lead speed_fields, number speed_fields, '')'', gap speed_fields 0,
             time_int speed_fields, ''.'', time_frac speed_fields, gap speed_fields 1,
             kind speed_fields, gap speed_fields 2, ident speed_fields, gap speed_fields 3,
             dlc speed_fields, gap speed_fields 4, payload speed_fields @ trail speed_fields]"
proof -
  have "ends_payload []" by (simp add: ends_payload_def)
  from match_v1 [OF speed_fields_wf this] show ?thesis by (simp add: speed_fields_line)
qed

section \<open>The records of the scan\<close>

text \<open>
  On digits of its base a conversion of the code gives the positional value, and the
  record of a parsed line enters the three lists of the scan between the records of
  the lines before it and of the lines after it.
\<close>

lemma foldl_positional:
  "foldl (\<lambda>a c. b * a + g c) acc s = acc * b ^ length s + positional b (map g s)"
  by (induction s arbitrary: acc) (simp_all add: algebra_simps)

lemma char_in_codes:
  assumes "code c \<in> set ns"
  shows "c \<in> set (map char_of ns)"
proof -
  have "c = char_of (code c)" by (simp add: code_def)
  then show ?thesis using assms by (metis image_eqI set_map)
qed

lemma digit_table_dec:
  "list_all (\<lambda>c. digit_value c = digit_of c) (map char_of [48 ..< 58 :: nat])"
  by code_simp

lemma digit_table_hex:
  "list_all (\<lambda>c. hex_digit_value c = digit_of c)
     (map char_of ([48 ..< 58] @ [65 ..< 71] @ [97 ..< 103 :: nat]))"
  by code_simp

lemma digit_of_digit: "is_digit c \<Longrightarrow> digit_value c = digit_of c"
proof -
  assume "is_digit c"
  then have "48 \<le> code c \<and> code c < 58" unfolding is_digit_def by arith
  then have "code c \<in> set [48 ..< 58]" by (simp only: set_upt atLeastLessThan_iff)
  then have "c \<in> set (map char_of [48 ..< 58 :: nat])" by (rule char_in_codes)
  with digit_table_dec show ?thesis unfolding list_all_iff by blast
qed

lemma digit_of_hex: "is_hex c \<Longrightarrow> hex_digit_value c = digit_of c"
proof -
  assume "is_hex c"
  then have "(48 \<le> code c \<and> code c < 58) \<or> (65 \<le> code c \<and> code c < 71)
      \<or> (97 \<le> code c \<and> code c < 103)"
    unfolding is_hex_def by arith
  then have "code c \<in> set ([48 ..< 58] @ [65 ..< 71] @ [97 ..< 103])"
    by (simp only: set_append set_upt Un_iff atLeastLessThan_iff)
  then have "c \<in> set (map char_of ([48 ..< 58] @ [65 ..< 71] @ [97 ..< 103 :: nat]))"
    by (rule char_in_codes)
  with digit_table_hex show ?thesis unfolding list_all_iff by blast
qed

lemma hex_value_positional:
  "list_all is_hex s \<Longrightarrow> hex_value s = positional 16 (map digit_of s)"
proof -
  assume "list_all is_hex s"
  then have "map hex_digit_value s = map digit_of s"
    by (simp add: list_all_iff digit_of_hex)
  then have "positional 16 (map hex_digit_value s) = positional 16 (map digit_of s)"
    by (rule arg_cong)
  then show ?thesis unfolding hex_value_def foldl_positional by simp
qed

lemma dec_value_positional:
  "list_all is_digit s \<Longrightarrow> dec_value s = positional 10 (map digit_of s)"
proof -
  assume "list_all is_digit s"
  then have "map digit_value s = map digit_of s"
    by (simp add: list_all_iff digit_of_digit)
  then have "positional 10 (map digit_value s) = positional 10 (map digit_of s)"
    by (rule arg_cong)
  then show ?thesis unfolding dec_value_def foldl_positional by simp
qed

lemma scan_lines_append:
  "scan_lines pat a = Inr (ta, ia, pa) \<Longrightarrow> scan_lines pat b = Inr (tb, ib, pb) \<Longrightarrow>
     scan_lines pat (a @ b) = Inr (ta @ tb, ia @ ib, pa @ pb)"
  by (induction a arbitrary: ta ia pa) (auto split: sum.splits option.splits prod.splits)

lemma scan_lines_record:
  assumes "\<And>x. \<exists>r. parse_line pat x = Inr r" and "parse_line pat l = Inr (Some (t, i, p))"
  shows "\<exists>tb ib pb ta ia pa.
           scan_lines pat before = Inr (tb, ib, pb) \<and> scan_lines pat after = Inr (ta, ia, pa)
         \<and> scan_lines pat (before @ l # after) = Inr (tb @ t # ta, ib @ i # ia, pb @ p # pa)"
proof -
  obtain tb ib pb where b: "scan_lines pat before = Inr (tb, ib, pb)"
    using scan_total [OF assms(1), of before] by (metis prod_cases3)
  obtain ta ia pa where a: "scan_lines pat after = Inr (ta, ia, pa)"
    using scan_total [OF assms(1), of after] by (metis prod_cases3)
  have "scan_lines pat (l # after) = Inr (t # ta, i # ia, p # pa)"
    using assms(2) a by simp
  with b have "scan_lines pat (before @ l # after) = Inr (tb @ t # ta, ib @ i # ia, pb @ p # pa)"
    by (rule scan_lines_append)
  with b a show ?thesis by blast
qed

lemma decimal_positional:
  "run1 is_digit ip \<Longrightarrow> run1 is_digit fp \<Longrightarrow>
     decimal ip fp = of_nat (positional 10 (map digit_of ip))
                     + of_nat (positional 10 (map digit_of fp)) / 10 ^ length fp"
  by (simp add: decimal_def run1_def dec_value_positional)

lemma matched_values:
  assumes "grammar_groups pat" "match_pieces (map fst pat) l = Some ts"
  shows "\<exists>ip fp. group 1 pat ts = ip @ ''.'' @ fp
           \<and> parse_line pat l
               = Inr (Some (decimal ip fp, hex_value (group 2 pat ts), strip (group 4 pat ts)))
           \<and> decimal ip fp = of_nat (positional 10 (map digit_of ip))
                               + of_nat (positional 10 (map digit_of fp)) / 10 ^ length fp
           \<and> hex_value (group 2 pat ts) = positional 16 (map digit_of (group 2 pat ts))
           \<and> list_all (run1 is_hex) (split_ws (strip (group 4 pat ts)))"
proof -
  from assms obtain ip fp where g1: "group 1 pat ts = ip @ ''.'' @ fp"
    and d: "run1 is_digit ip" "run1 is_digit fp"
    and h: "run1 is_hex (group 2 pat ts)"
    and p: "list_all (\<lambda>c. is_hex c \<or> is_space c) (group 4 pat ts)"
    unfolding grammar_groups_def by blast
  have f: "float_str (group 1 pat ts) = Inr (decimal ip fp)"
    unfolding g1 using d by (rule float_str_decimal)
  have r: "parse_line pat l
      = Inr (Some (decimal ip fp, hex_value (group 2 pat ts), strip (group 4 pat ts)))"
    unfolding parse_line_def assms(2) option.case f int16_hex [OF h] sum.case ..
  have hv: "hex_value (group 2 pat ts) = positional 16 (map digit_of (group 2 pat ts))"
    using h by (simp add: run1_def hex_value_positional)
  show ?thesis
    using g1 r decimal_positional [OF d] hv payload_hex_tokens [OF p]
    by (intro exI conjI)
qed

lemma speed_fields_values:
  "positional 10 (map digit_of (time_int speed_fields)) = 12
   \<and> positional 10 (map digit_of (time_frac speed_fields)) = 5
   \<and> length (time_frac speed_fields) = 1
   \<and> positional 16 (map digit_of (ident speed_fields)) = 256
   \<and> payload speed_fields = ''64 00''
   \<and> tokens speed_fields = [''64'', ''00'']"
  by (simp add: speed_fields_def digit_of_def digit_table_def payload_def tokens_def)

section \<open>The header read\<close>

text \<open>
  C9.  A trace file of fewer than ten lines makes \<open>decode_can\<close> raise: the header read
  fails with \<^verbatim>\<open>StopIteration\<close> before any grammar is applied, whatever the lines hold,
  and whatever the database no table is returned.  So a table is returned only for a
  file of at least ten lines.
\<close>

theorem short_trace_raises:
  assumes "length trc < 10"
  shows "decode_can (Inr db) trc = Inl StopIteration \<and> (\<forall>dbc. \<exists>e. decode_can dbc trc = Inl e)"
proof -
  have h: "read_trace trc = Inl StopIteration"
    using assms by (simp add: read_trace_def read_header_def)
  have "\<exists>e. decode_can dbc trc = Inl e" for dbc
    by (cases dbc) (simp_all add: decode_can_def h)
  then show ?thesis by (simp add: decode_can_def h)
qed

theorem short_trace_raises_witness:
  "length [speed_line] < 10 \<and> decode_can (Inr speed_db) [speed_line] = Inl StopIteration
   \<and> (\<forall>dbc. \<exists>e. decode_can dbc [speed_line] = Inl e)"
  using short_trace_raises [of "[speed_line]" speed_db] by simp

section \<open>The decode action\<close>

text \<open>
  C7.  When either staged file is missing, \<open>decode_and_plot\<close> answers with the message
  \<^verbatim>\<open>Please upload both files.\<close> and the download button disabled; when the decoded table
  has no rows or fewer than two columns it answers with \<^verbatim>\<open>No data to plot.\<close> and the
  download button disabled.  Both are a message in place of charts, and both leave the
  staging area as it was (no CSV is written).
\<close>

theorem decode_and_plot_messages:
  "(dbc_tmp st = None \<or> trc_tmp st = None \<longrightarrow>
      decode_and_plot st = (Inr (Message ''Please upload both files.'', True), st))
   \<and> (dbc_tmp st' = Some dbc \<and> trc_tmp st' = Some trc \<and> decode_can dbc trc = Inr df
        \<and> (nrows df = 0 \<or> length (columns df) < 2) \<longrightarrow>
      decode_and_plot st' = (Inr (Message ''No data to plot.'', True), st'))"
  by (auto simp: decode_and_plot_def split: option.splits)

theorem decode_and_plot_messages_witness:
  "(dbc_tmp \<lparr>dbc_tmp = None, trc_tmp = Some blank_trace, decoded_csv = None\<rparr> = None
    \<and> decode_and_plot \<lparr>dbc_tmp = None, trc_tmp = Some blank_trace, decoded_csv = None\<rparr>
        = (Inr (Message ''Please upload both files.'', True),
           \<lparr>dbc_tmp = None, trc_tmp = Some blank_trace, decoded_csv = None\<rparr>))
   \<and> (decode_can (Inr no_db) blank_trace = Inr \<lparr>nrows = 0, columns = []\<rparr>
    \<and> decode_and_plot \<lparr>dbc_tmp = Some (Inr no_db), trc_tmp = Some blank_trace, decoded_csv = None\<rparr>
        = (Inr (Message ''No data to plot.'', True),
           \<lparr>dbc_tmp = Some (Inr no_db), trc_tmp = Some blank_trace, decoded_csv = None\<rparr>))"
  using decode_and_plot_messages
    [of "\<lparr>dbc_tmp = None, trc_tmp = Some blank_trace, decoded_csv = None\<rparr>"
        "\<lparr>dbc_tmp = Some (Inr no_db), trc_tmp = Some blank_trace, decoded_csv = None\<rparr>"
        "Inr no_db" blank_trace "\<lparr>nrows = 0, columns = []\<rparr>"]
    blank_decode
  by simp

section \<open>Payload bytes out of range\<close>

text \<open>
  C10.  A matched record whose frame id the database knows and whose payload has a
  token of value above \<^verbatim>\<open>0xFF\<close> makes the byte conversion raise \<^verbatim>\<open>ValueError\<close>: the loop
  step for that record is the exception, whatever the row index, the records after it
  and the dictionary so far (the record is neither skipped nor decoded), and
  \<open>decode_can\<close> returns no table.
\<close>

theorem oversized_byte_raises:
  assumes "read_trace trc = Inr (ts, ids, ps)" and "i < length ids"
    and "get_message_by_frame_id db (ids ! i) = Some msg"
    and "tok \<in> set (split_ws (ps ! i))" and "255 < hex_value tok"
  shows "(\<forall>idx rest r. decode_loop db idx ((ids ! i, ps ! i) # rest) r = Inl ValueError)
       \<and> (\<exists>e. decode_can (Inr db) trc = Inl e)"
proof -
  have bad: "data_bytes (split_ws (ps ! i)) = Inl ValueError"
    using assms(4,5) by (rule data_bytes_big)
  have step: "decode_loop db idx ((ids ! i, ps ! i) # rest) r = Inl ValueError" for idx rest r
    using assms(3) bad by simp
  have len: "length ps = length ids"
    using assms(1) scan_lines_lengths
    by (auto simp: read_trace_def split: sum.splits)
  then have i: "i < length (zip ids ps)" using assms(2) by simp
  have "zip ids ps = take i (zip ids ps) @ (ids ! i, ps ! i) # drop (Suc i) (zip ids ps)"
    using id_take_nth_drop [OF i] i by simp
  moreover have "\<exists>e. decode_loop db 0 (take i (zip ids ps) @ (ids ! i, ps ! i) # drop (Suc i) (zip ids ps))
            (init_result db ts) = Inl e"
    by (rule decode_loop_stops) (rule exI, rule step)
  ultimately obtain e where "decode_loop db 0 (zip ids ps) (init_result db ts) = Inl e"
    by auto
  then have "decode_can (Inr db) trc = Inl e"
    using assms(1) by (simp add: decode_can_def)
  then show ?thesis using step by blast
qed

theorem oversized_byte_raises_witness:
  "read_trace wide_trace = Inr ([25 / 2], [256], [''164 00'']) \<and> 0 < length [256 :: nat]
   \<and> get_message_by_frame_id speed_db ([256] ! 0) = Some (make_message 256 2 [speed_signal])
   \<and> ''164'' \<in> set (split_ws ([''164 00''] ! 0)) \<and> 255 < hex_value ''164''
   \<and> (\<forall>idx rest r. decode_loop speed_db idx (([256] ! 0, [''164 00''] ! 0) # rest) r = Inl ValueError)
   \<and> (\<exists>e. decode_can (Inr speed_db) wide_trace = Inl e)"
proof -
  have t: "''164'' \<in> set (split_ws ([''164 00''] ! 0))" by code_simp
  have v: "255 < hex_value ''164''" by code_simp
  have l: "get_message_by_frame_id speed_db ([256] ! 0) = Some (make_message 256 2 [speed_signal])"
    by (simp add: speed_db_lookup)
  have n: "0 < length [256 :: nat]" by simp
  from oversized_byte_raises [OF wide_trace_read n l t v] wide_trace_read n l t v
  show ?thesis by blast
qed

section \<open>Records of unknown frame id\<close>

text \<open>
  C5.  A record whose frame id has no message in the database is passed over without
  an exception: its loop step is the loop on the next record with the dictionary
  unchanged.  In the returned table the row is kept: the table has one row per matched
  record, the Timestamp column is there and holds the record's timestamp in that row,
  and every other column is null in that row.
\<close>

theorem unknown_frame_id_row:
  assumes "read_trace trc = Inr (ts, ids, ps)" and "decode_can (Inr db) trc = Inr df"
    and "i < length ids" and "get_message_by_frame_id db (ids ! i) = None"
  shows "(\<forall>idx rest r. decode_loop db idx ((ids ! i, ps ! i) # rest) r = decode_loop db (Suc idx) rest r)
       \<and> nrows df = length ts
       \<and> (\<exists>c. (''Timestamp'', c) \<in> set (columns df))
       \<and> (\<forall>(k, c) \<in> set (columns df).
            length c = length ts \<and> c ! i = (if k = ''Timestamp'' then Some (ts ! i) else None))"
proof -
  have step: "decode_loop db idx ((ids ! i, ps ! i) # rest) r = decode_loop db (Suc idx) rest r"
    for idx rest r using assms(4) by simp
  have len: "length ids = length ts" "length ps = length ts"
    using assms(1) scan_lines_lengths
    by (auto simp: read_trace_def split: sum.splits)
  from assms(2,1) obtain r where r: "keeps (hits db 0 (zip ids ps)) (init_result db ts) r"
    and df: "df = \<lparr>nrows = length ts, columns = filter (\<lambda>(k, c). list_ex (\<lambda>x. x \<noteq> None) c) r\<rparr>"
    by (rule decode_can_Inr)
  obtain rest where init: "init_result db ts = (''Timestamp'', map Some ts) # rest"
    and nulls: "\<forall>(k, c) \<in> set rest. c = replicate (length ts) None"
    and dist: "distinct (map fst (init_result db ts))"
    using init_result_shape by blast
  have i: "i < length ts" using assms(3) len by simp
  have miss: "i \<notin> hits db 0 (zip ids ps)"
    using assms(3,4) len by (intro hits_miss) simp_all
  from r obtain ct rest' where r': "r = (''Timestamp'', ct) # rest'" "length ct = length ts"
    and ct: "\<And>j. j \<notin> hits db 0 (zip ids ps) \<Longrightarrow> ct ! j = map Some ts ! j"
    unfolding init by (rule keeps_Cons) simp
  have cti: "ct ! i = Some (ts ! i)" using ct [OF miss] i by simp
  moreover have "ct ! i \<in> set ct" using i r'(2) by simp
  ultimately have "list_ex (\<lambda>x. x \<noteq> None) ct"
    unfolding list_ex_iff by (intro bexI [of _ "ct ! i"]) simp_all
  then have stamp: "(''Timestamp'', ct) \<in> set (columns df)" by (simp add: df r')
  have cols: "length c' = length ts \<and> c' ! i = (if k = ''Timestamp'' then Some (ts ! i) else None)"
    if "(k, c') \<in> set (columns df)" for k c'
  proof -
    from that have "(k, c') \<in> set r" by (simp add: df)
    with r obtain c where c: "(k, c) \<in> set (init_result db ts)" "length c' = length c"
      "\<And>j. j \<notin> hits db 0 (zip ids ps) \<Longrightarrow> c' ! j = c ! j"
      by (rule keeps_in_set) blast
    show ?thesis
    proof (cases "k = ''Timestamp''")
      case True
      then have "c = map Some ts"
        using c(1) dist unfolding init by (auto simp: image_iff)
      then show ?thesis using c(2) c(3) [OF miss] i True by simp
    next
      case False
      then have "(k, c) \<in> set rest" using c(1) unfolding init by simp
      then have "c = replicate (length ts) None" using nulls by auto
      then show ?thesis using c(2) c(3) [OF miss] i False by simp
    qed
  qed
  show ?thesis using step stamp cols by (auto simp: df)
qed

theorem unknown_frame_id_row_witness:
  "read_trace speed_trace = Inr ([25 / 2], [256], [''64 00''])
   \<and> decode_can (Inr no_db) speed_trace
       = Inr \<lparr>nrows = 1, columns = [(''Timestamp'', [Some (25 / 2)])]\<rparr>
   \<and> 0 < length [256 :: nat] \<and> get_message_by_frame_id no_db ([256] ! 0) = None
   \<and> nrows \<lparr>nrows = 1, columns = [(''Timestamp'', [Some (25 / 2 :: rat)])]\<rparr> = length [25 / 2 :: rat]
   \<and> (\<exists>c. (''Timestamp'', c)
          \<in> set (columns \<lparr>nrows = 1, columns = [(''Timestamp'', [Some (25 / 2 :: rat)])]\<rparr>))"
proof -
  have n: "0 < length [256 :: nat]" by simp
  have l: "get_message_by_frame_id no_db ([256] ! 0) = None" by (simp add: no_db_def)
  from unknown_frame_id_row [OF speed_trace_read no_db_decode_speed n l]
    speed_trace_read no_db_decode_speed n l
  show ?thesis by blast
qed

section \<open>Scenario A\<close>

text \<open>
  C6.  With a database of the one message \<^verbatim>\<open>0x100\<close> carrying the signal Speed (scale 0.1,
  offset 0, here the unsigned 16-bit little-endian field at bit 0) and a trace of version
  1.1 whose one data line has id \<^verbatim>\<open>0100\<close>, length 2 and payload \<^verbatim>\<open>64 00\<close>: the header
  selects the first grammar, the line parses to timestamp 12.5, frame id \<^verbatim>\<open>0x100\<close> and
  payload \<^verbatim>\<open>64 00\<close>, and the table has the one row with the columns Timestamp and Speed,
  Speed being 10 at timestamp 12.5.
\<close>

theorem scenario_speed:
  "select_pattern (file_version (take 10 speed_trace)) = pattern_v1
   \<and> parse_line pattern_v1 speed_line = Inr (Some (25 / 2, 0x100, ''64 00''))
   \<and> read_trace speed_trace = Inr ([25 / 2], [0x100], [''64 00''])
   \<and> decode_can (Inr speed_db) speed_trace
       = Inr \<lparr>nrows = 1, columns = [(''Timestamp'', [Some (25 / 2)]), (''Speed'', [Some 10])]\<rparr>"
proof -
  have "take 10 speed_trace = header_v1 @ [speed_line]"
    by (simp add: speed_trace_def header_v1_def)
  then have "select_pattern (file_version (take 10 speed_trace)) = pattern_v1"
    by (simp add: header_v1_version select_pattern_def)
  then show ?thesis
    using speed_line_parse speed_trace_read speed_decode by simp
qed

section \<open>A signal named Timestamp\<close>

text \<open>
  C3, at the input where it fails.  A database whose message \<^verbatim>\<open>0x100\<close> has a signal
  named Timestamp: the dictionary built before decoding has the one column Timestamp,
  filled with the timestamps (no column of nulls is made for the signal), and decoding
  the record writes the signal's value 10 over the record's timestamp 12.5.
\<close>

theorem timestamp_signal_collision:
  "signals (hd (messages stamp_db)) = [''Timestamp'']
   \<and> init_result stamp_db [25 / 2] = [(''Timestamp'', [Some (25 / 2)])]
   \<and> read_trace speed_trace = Inr ([25 / 2], [0x100], [''64 00''])
   \<and> decode_can (Inr stamp_db) speed_trace
       = Inr \<lparr>nrows = 1, columns = [(''Timestamp'', [Some 10])]\<rparr>"
  using stamp_db_init stamp_db_decode speed_trace_read
  by (simp add: stamp_db_def make_database_def make_message_def stamp_signal_def)

section \<open>Column pruning\<close>

text \<open>
  C4.  When \<open>decode_can\<close> returns a table, its columns are exactly the columns of the
  decoded dictionary that have a cell which is not null, in their order: every column
  that is null in every row is dropped and no other.  So no returned column is null in
  every row, and the Timestamp column is present whenever at least one record matched.
\<close>

theorem no_empty_column:
  assumes "decode_can dbc trc = Inr df"
  shows "\<exists>db ts ids ps r.
           dbc = Inr db \<and> read_trace trc = Inr (ts, ids, ps)
         \<and> decode_loop db 0 (zip ids ps) (init_result db ts) = Inr r
         \<and> columns df = filter (\<lambda>(k, c). \<exists>x \<in> set c. x \<noteq> None) r
         \<and> (\<forall>(k, c) \<in> set (columns df). \<exists>x \<in> set c. x \<noteq> None)
         \<and> (ts \<noteq> [] \<longrightarrow> (\<exists>c. (''Timestamp'', c) \<in> set (columns df)))"
proof -
  from assms obtain db ts ids ps where db: "dbc = Inr db" and rt: "read_trace trc = Inr (ts, ids, ps)"
    by (rule decode_can_Inr_args)
  from assms [unfolded db] rt obtain r where
    r: "decode_loop db 0 (zip ids ps) (init_result db ts) = Inr r"
    and k: "keeps (hits db 0 (zip ids ps)) (init_result db ts) r"
    and df: "df = \<lparr>nrows = length ts, columns = filter (\<lambda>(k, c). list_ex (\<lambda>x. x \<noteq> None) c) r\<rparr>"
    by (rule decode_can_Inr)
  have cols: "columns df = filter (\<lambda>(k, c). \<exists>x \<in> set c. x \<noteq> None) r"
    by (simp add: df list_ex_iff)
  have full: "\<forall>(k, c) \<in> set (columns df). \<exists>x \<in> set c. x \<noteq> None"
    unfolding cols by simp
  have stamp: "ts \<noteq> [] \<longrightarrow> (\<exists>c. (''Timestamp'', c) \<in> set (columns df))"
    unfolding cols using timestamp_column_kept [OF k] by (rule impI)
  from db rt r cols full stamp show ?thesis by (intro exI conjI)
qed

theorem no_empty_column_witness:
  "decode_can (Inr two_db) speed_trace
     = Inr \<lparr>nrows = 1, columns = [(''Timestamp'', [Some (25 / 2)]), (''Speed'', [Some 10])]\<rparr>
   \<and> (\<exists>db ts ids ps r.
           (Inr two_db :: error + database) = Inr db \<and> read_trace speed_trace = Inr (ts, ids, ps)
         \<and> decode_loop db 0 (zip ids ps) (init_result db ts) = Inr r
         \<and> columns \<lparr>nrows = 1, columns = [(''Timestamp'', [Some (25 / 2)]), (''Speed'', [Some 10])]\<rparr>
             = filter (\<lambda>(k, c). \<exists>x \<in> set c. x \<noteq> None) r)"
proof -
  from no_empty_column [OF two_db_decode] obtain db ts ids ps r where
    a: "(Inr two_db :: error + database) = Inr db" and b: "read_trace speed_trace = Inr (ts, ids, ps)"
    and c: "decode_loop db 0 (zip ids ps) (init_result db ts) = Inr r"
    and d: "columns \<lparr>nrows = 1, columns = [(''Timestamp'', [Some (25 / 2)]), (''Speed'', [Some 10])]\<rparr>
       = filter (\<lambda>(k, c). \<exists>x \<in> set c. x \<noteq> None) r"
    by blast
  have "\<exists>db ts ids ps r.
           (Inr two_db :: error + database) = Inr db \<and> read_trace speed_trace = Inr (ts, ids, ps)
         \<and> decode_loop db 0 (zip ids ps) (init_result db ts) = Inr r
         \<and> columns \<lparr>nrows = 1, columns = [(''Timestamp'', [Some (25 / 2)]), (''Speed'', [Some 10])]\<rparr>
             = filter (\<lambda>(k, c). \<exists>x \<in> set c. x \<noteq> None) r"
    using a b c d by (intro exI conjI)
  with two_db_decode show ?thesis by (rule conjI)
qed

section \<open>Grammar selection\<close>

text \<open>
  C2.  The grammar is chosen from the first ten lines only.  Where the first of them that
  contains \<^verbatim>\<open>;$FILEVERSION=\<close> reads, after the marker, a token without \<^verbatim>\<open>=\<close> followed by
  whitespace up to the line end, the version is that token: \<^verbatim>\<open>1.1\<close> scans the file with
  the first grammar, \<^verbatim>\<open>2.0\<close> with the second and every other token with the third, the
  one of \<^verbatim>\<open>2.1\<close>.  Where none of the ten lines contains the marker the file is scanned
  with the third grammar.  The three grammars differ.
\<close>

theorem grammar_selection:
  assumes "read_header trc = Inr header"
    and "header = before @ (pre @ '';$FILEVERSION='' @ tok @ ws) # after"
    and "list_all (\<lambda>l. \<not> contains '';$FILEVERSION='' l) before"
    and "CHR ''='' \<notin> set tok" and "list_all is_space ws"
    and "tok = [] \<or> \<not> is_space (last tok)"
    and "read_header trc' = Inr header'"
    and "list_all (\<lambda>l. \<not> contains '';$FILEVERSION='' l) header'"
  shows "header = take 10 trc \<and> file_version header = tok
       \<and> read_trace trc = scan_lines (if tok = ''1.1'' then pattern_v1
                                       else if tok = ''2.0'' then pattern_v2
                                       else pattern_v3) trc
       \<and> header' = take 10 trc' \<and> read_trace trc' = scan_lines pattern_v3 trc'
       \<and> pattern_v1 \<noteq> pattern_v2 \<and> pattern_v1 \<noteq> pattern_v3 \<and> pattern_v2 \<noteq> pattern_v3"
proof -
  have h: "header = take 10 trc"
    using assms(1) by (simp add: read_header_def split: if_splits)
  have h': "header' = take 10 trc'"
    using assms(7) by (simp add: read_header_def split: if_splits)
  have b: "\<forall>l \<in> set before. \<not> contains '';$FILEVERSION='' l"
    using assms(3) by (simp add: list_all_iff)
  have t: "tok \<noteq> [] \<longrightarrow> \<not> is_space (last tok)" using assms(6) by blast
  have v: "file_version header = tok"
    unfolding assms(2) using b assms(4,5) t by (rule file_version_marker)
  have "\<forall>l \<in> set header'. \<not> contains '';$FILEVERSION='' l"
    using assms(8) by (simp add: list_all_iff)
  then have v': "file_version header' = []" by (rule file_version_no_marker)
  have r: "read_trace trc = scan_lines (select_pattern tok) trc"
    using assms(1) v by (simp add: read_trace_def)
  have r': "read_trace trc' = scan_lines (select_pattern []) trc'"
    using assms(7) v' by (simp add: read_trace_def)
  have s: "select_pattern tok = (if tok = ''1.1'' then pattern_v1
                                 else if tok = ''2.0'' then pattern_v2 else pattern_v3)"
    by (simp add: select_pattern_def)
  have s': "select_pattern [] = pattern_v3" by (simp add: select_pattern_def)
  show ?thesis using h h' v r r' patterns_distinct unfolding s s' by simp
qed

theorem grammar_selection_witness:
  "read_header speed_trace = Inr speed_trace
   \<and> speed_trace = [] @ ([] @ '';$FILEVERSION='' @ ''1.1'' @ [CHR 0x0A]) # (tl speed_trace)
   \<and> CHR ''='' \<notin> set ''1.1'' \<and> list_all is_space [CHR 0x0A]
   \<and> (''1.1'' = [] \<or> \<not> is_space (last ''1.1''))
   \<and> read_header blank_trace = Inr blank_trace
   \<and> list_all (\<lambda>l. \<not> contains '';$FILEVERSION='' l) blank_trace
   \<and> file_version speed_trace = ''1.1''
   \<and> read_trace speed_trace = scan_lines pattern_v1 speed_trace
   \<and> read_trace blank_trace = scan_lines pattern_v3 blank_trace"
proof -
  have a1: "read_header speed_trace = Inr speed_trace"
    by (simp add: read_header_def speed_trace_def header_v1_def)
  have a2: "speed_trace = [] @ ([] @ '';$FILEVERSION='' @ ''1.1'' @ [CHR 0x0A]) # (tl speed_trace)"
    by (simp add: speed_trace_def header_v1_def eol_def)
  have a3: "list_all (\<lambda>l. \<not> contains '';$FILEVERSION='' l) []" by simp
  have a4: "CHR ''='' \<notin> set ''1.1''" by simp
  have a5: "list_all is_space [CHR 0x0A]" by (simp add: is_space_def code_def)
  have a6: "''1.1'' = [] \<or> \<not> is_space (last ''1.1'')" by (simp add: is_space_def code_def)
  have a7: "read_header blank_trace = Inr blank_trace"
    by (simp add: read_header_def blank_trace_def)
  have a8: "list_all (\<lambda>l. \<not> contains '';$FILEVERSION='' l) blank_trace"
    by (simp add: blank_trace_def eol_def list_all_iff)
  from grammar_selection [OF a1 a2 a3 a4 a5 a6 a7 a8] a1 a2 a4 a5 a6 a7 a8
  show ?thesis by simp
qed

section \<open>Parsing the lines of a trace\<close>

text \<open>
  C1.  A line written in the shape of a grammar (leading whitespace, sequence number,
  timestamp \<^verbatim>\<open>digits.digits\<close>, the grammar's markers, frame id in hexadecimal, declared
  length, payload of hexadecimal tokens parted by whitespace, each field set off by
  whitespace) parses under that grammar to the timestamp as the decimal number it
  writes, the frame id as the value of its hexadecimal digits and the payload text whose
  whitespace-separated tokens are the line's byte tokens in order; this for each of the
  three grammars.  The two numbers are the positional values of the digits: integer
  part plus fraction part over the power of ten of its length, and base sixteen for the
  frame id.  In the scan of a file the triple of such a line is appended to the three
  lists \<^verbatim>\<open>timestamps\<close>, \<^verbatim>\<open>message_ids\<close> and \<^verbatim>\<open>message_payloads\<close>, after the records of
  the lines before it and ahead of the records of the lines after it.  Every line a
  grammar matches gives such a record, and it reaches the lists in the same way: the
  decimal value of group 1, the hexadecimal value of group 2 and the stripped text of
  group 4, whose tokens are runs of hexadecimal digits.  A line the selected grammar does
  not match gives no record and no exception: the scan of a file is the scan of the file
  without that line, and the scan returns its lists.
\<close>

theorem grammar_lines_parse:
  assumes "well_formed f" and "ends_payload rest"
    and "pat = pattern_v1 \<or> pat = pattern_v2 \<or> pat = pattern_v3"
    and "match_pieces (map fst pat) l = None"
    and "match_pieces (map fst pat) l' = Some ts"
  shows "parse_line pattern_v1 (line_v1 f @ rest)
           = Inr (Some (decimal (time_int f) (time_frac f), hex_value (ident f), payload f))
       \<and> parse_line pattern_v2 (line_v2 f @ rest)
           = Inr (Some (decimal (time_int f) (time_frac f), hex_value (ident f), payload f))
       \<and> parse_line pattern_v3 (line_v3 f @ rest)
           = Inr (Some (decimal (time_int f) (time_frac f), hex_value (ident f), payload f))
       \<and> decimal (time_int f) (time_frac f)
           = of_nat (positional 10 (map digit_of (time_int f)))
             + of_nat (positional 10 (map digit_of (time_frac f))) / 10 ^ length (time_frac f)
       \<and> hex_value (ident f) = positional 16 (map digit_of (ident f))
       \<and> split_ws (payload f) = tokens f
       \<and> (\<exists>tb ib pb ta ia pa.
             scan_lines pattern_v1 before = Inr (tb, ib, pb)
           \<and> scan_lines pattern_v1 after = Inr (ta, ia, pa)
           \<and> scan_lines pattern_v1 (before @ (line_v1 f @ rest) # after)
               = Inr (tb @ decimal (time_int f) (time_frac f) # ta,
                      ib @ hex_value (ident f) # ia, pb @ payload f # pa))
       \<and> (\<exists>tb ib pb ta ia pa.
             scan_lines pattern_v2 before = Inr (tb, ib, pb)
           \<and> scan_lines pattern_v2 after = Inr (ta, ia, pa)
           \<and> scan_lines pattern_v2 (before @ (line_v2 f @ rest) # after)
               = Inr (tb @ decimal (time_int f) (time_frac f) # ta,
                      ib @ hex_value (ident f) # ia, pb @ payload f # pa))
       \<and> (\<exists>tb ib pb ta ia pa.
             scan_lines pattern_v3 before = Inr (tb, ib, pb)
           \<and> scan_lines pattern_v3 after = Inr (ta, ia, pa)
           \<and> scan_lines pattern_v3 (before @ (line_v3 f @ rest) # after)
               = Inr (tb @ decimal (time_int f) (time_frac f) # ta,
                      ib @ hex_value (ident f) # ia, pb @ payload f # pa))
       \<and> (\<exists>ip fp. group 1 pat ts = ip @ ''.'' @ fp
             \<and> parse_line pat l'
                 = Inr (Some (decimal ip fp, hex_value (group 2 pat ts), strip (group 4 pat ts)))
             \<and> decimal ip fp = of_nat (positional 10 (map digit_of ip))
                                 + of_nat (positional 10 (map digit_of fp)) / 10 ^ length fp
             \<and> hex_value (group 2 pat ts) = positional 16 (map digit_of (group 2 pat ts))
             \<and> list_all (run1 is_hex) (split_ws (strip (group 4 pat ts)))
             \<and> (\<exists>tb ib pb ta ia pa.
                   scan_lines pat before = Inr (tb, ib, pb)
                 \<and> scan_lines pat after = Inr (ta, ia, pa)
                 \<and> scan_lines pat (before @ l' # after)
                     = Inr (tb @ decimal ip fp # ta, ib @ hex_value (group 2 pat ts) # ia,
                            pb @ strip (group 4 pat ts) # pa)))
       \<and> parse_line pat l = Inr None
       \<and> scan_lines pat (before @ l # after) = scan_lines pat (before @ after)
       \<and> (\<exists>r. scan_lines pat (before @ l # after) = Inr r)"
proof -
  have none: "parse_line pat l = Inr None"
    using assms(4) by (simp add: parse_line_def)
  have total: "\<exists>r. parse_line pat x = Inr r" for x
    using assms(3) parse_total_v1 parse_total_v2 parse_total_v3 by blast
  have ex: "\<exists>r. scan_lines pat (before @ l # after) = Inr r"
    using total by (rule scan_total)
  have n: "run1 is_digit (time_int f)" "run1 is_digit (time_frac f)" "run1 is_hex (ident f)"
    using assms(1) by (simp_all add: well_formed_def)
  have hv: "hex_value (ident f) = positional 16 (map digit_of (ident f))"
    using n(3) by (simp add: run1_def hex_value_positional)
  note s1 = scan_lines_record [of pattern_v1, OF parse_total_v1 parse_v1 [OF assms(1,2)]]
  note s2 = scan_lines_record [of pattern_v2, OF parse_total_v2 parse_v2 [OF assms(1,2)]]
  note s3 = scan_lines_record [of pattern_v3, OF parse_total_v3 parse_v3 [OF assms(1,2)]]
  from matched_values [OF grammar_groups_any [OF assms(3)] assms(5)]
  obtain ip fp where m: "group 1 pat ts = ip @ ''.'' @ fp"
    "parse_line pat l'
       = Inr (Some (decimal ip fp, hex_value (group 2 pat ts), strip (group 4 pat ts)))"
    "decimal ip fp = of_nat (positional 10 (map digit_of ip))
                     + of_nat (positional 10 (map digit_of fp)) / 10 ^ length fp"
    "hex_value (group 2 pat ts) = positional 16 (map digit_of (group 2 pat ts))"
    "list_all (run1 is_hex) (split_ws (strip (group 4 pat ts)))"
    by blast
  note sm = scan_lines_record [of pat, OF total m(2)]
  have mm: "\<exists>ip fp. group 1 pat ts = ip @ ''.'' @ fp
             \<and> parse_line pat l'
                 = Inr (Some (decimal ip fp, hex_value (group 2 pat ts), strip (group 4 pat ts)))
             \<and> decimal ip fp = of_nat (positional 10 (map digit_of ip))
                                 + of_nat (positional 10 (map digit_of fp)) / 10 ^ length fp
             \<and> hex_value (group 2 pat ts) = positional 16 (map digit_of (group 2 pat ts))
             \<and> list_all (run1 is_hex) (split_ws (strip (group 4 pat ts)))
             \<and> (\<exists>tb ib pb ta ia pa.
                   scan_lines pat before = Inr (tb, ib, pb)
                 \<and> scan_lines pat after = Inr (ta, ia, pa)
                 \<and> scan_lines pat (before @ l' # after)
                     = Inr (tb @ decimal ip fp # ta, ib @ hex_value (group 2 pat ts) # ia,
                            pb @ strip (group 4 pat ts) # pa))"
    apply (rule exI [of _ ip])
    apply (rule exI [of _ fp])
    using m sm [of before after] by (intro conjI)
  show ?thesis
    using parse_v1 [OF assms(1,2)] parse_v2 [OF assms(1,2)] parse_v3 [OF assms(1,2)]
      decimal_positional [OF n(1,2)] hv payload_tokens [OF assms(1)]
      s1 [of before after] s2 [of before after] s3 [of before after]
      mm none scan_skip_one [OF none] ex
    by (intro conjI)
qed

theorem grammar_lines_parse_witness:
  "well_formed speed_fields \<and> ends_payload []
   \<and> (pattern_v1 = pattern_v1 \<or> pattern_v1 = pattern_v2 \<or> pattern_v1 = pattern_v3)
   \<and> match_pieces (map fst pattern_v1) (eol '';$FILEVERSION=1.1'') = None
   \<and> match_pieces (map fst pattern_v1) speed_line
       = Some [lead speed_fields, number speed_fields, '')'', gap speed_fields 0,
               time_int speed_fields, ''.'', time_frac speed_fields, gap speed_fields 1,
               kind speed_fields, gap speed_fields 2, ident speed_fields, gap speed_fields 3,
               dlc speed_fields, gap speed_fields 4, payload speed_fields @ trail speed_fields]
   \<and> line_v1 speed_fields @ [] = eol ''     1)        12.5  Rx         0100  2  64 00 ''
   \<and> parse_line pattern_v1 (line_v1 speed_fields @ []) = Inr (Some (25 / 2, 256, ''64 00''))
   \<and> split_ws ''64 00'' = [''64'', ''00'']
   \<and> scan_lines pattern_v1
         ([eol ''     7)        3.75  Rx         01aF  1  0b ''] @ (line_v1 speed_fields @ [])
           # [wide_line])
       = Inr ([15 / 4, 25 / 2, 25 / 2], [431, 256, 256], [''0b'', ''64 00'', ''164 00''])
   \<and> scan_lines pattern_v1
         ([eol ''     7)        3.75  Rx         01aF  1  0b ''] @ speed_line # [wide_line])
       = Inr ([15 / 4, 25 / 2, 25 / 2], [431, 256, 256], [''0b'', ''64 00'', ''164 00''])
   \<and> scan_lines pattern_v1
         ([eol ''     7)        3.75  Rx         01aF  1  0b ''] @ eol '';$FILEVERSION=1.1''
           # [wide_line])
       = Inr ([15 / 4, 25 / 2], [431, 256], [''0b'', ''164 00''])"
proof -
  let ?l7 = "eol ''     7)        3.75  Rx         01aF  1  0b ''"
  have e: "ends_payload []" by (simp add: ends_payload_def)
  have p: "pattern_v1 = pattern_v1 \<or> pattern_v1 = pattern_v2 \<or> pattern_v1 = pattern_v3" by simp
  have m: "match_pieces (map fst pattern_v1) (eol '';$FILEVERSION=1.1'') = None"
    by (simp add: pattern_v1_def eol_def is_space_def is_digit_def code_def)
  have l7: "parse_line pattern_v1 ?l7 = Inr (Some (15 / 4, 431, ''0b''))"
    by code_simp
  have sb: "scan_lines pattern_v1 [?l7] = Inr ([15 / 4], [431], [''0b''])"
    by (simp add: l7)
  have sa: "scan_lines pattern_v1 [wide_line] = Inr ([25 / 2], [256], [''164 00''])"
    by (simp add: wide_line_parse)
  have sba: "scan_lines pattern_v1 ([?l7] @ [wide_line])
      = Inr ([15 / 4, 25 / 2], [431, 256], [''0b'', ''164 00''])"
    by (simp add: l7 wide_line_parse)
  have ln: "line_v1 speed_fields @ [] = eol ''     1)        12.5  Rx         0100  2  64 00 ''"
    by (simp add: speed_fields_line speed_line_def)
  note r = grammar_lines_parse [OF speed_fields_wf e p m speed_line_match,
      of "[?l7]" "[wide_line]"]
  have c1: "parse_line pattern_v1 (line_v1 speed_fields @ [])
       = Inr (Some (decimal (time_int speed_fields) (time_frac speed_fields),
                    hex_value (ident speed_fields), payload speed_fields))"
    using r by (elim conjE)
  have d: "decimal (time_int speed_fields) (time_frac speed_fields)
       = of_nat (positional 10 (map digit_of (time_int speed_fields)))
         + of_nat (positional 10 (map digit_of (time_frac speed_fields)))
           / 10 ^ length (time_frac speed_fields)"
    using r by (elim conjE)
  have h: "hex_value (ident speed_fields) = positional 16 (map digit_of (ident speed_fields))"
    using r by (elim conjE)
  have t: "split_ws (payload speed_fields) = tokens speed_fields"
    using r by (elim conjE)
  have s: "\<exists>tb ib pb ta ia pa.
             scan_lines pattern_v1 [?l7] = Inr (tb, ib, pb)
           \<and> scan_lines pattern_v1 [wide_line] = Inr (ta, ia, pa)
           \<and> scan_lines pattern_v1 ([?l7] @ (line_v1 speed_fields @ []) # [wide_line])
               = Inr (tb @ decimal (time_int speed_fields) (time_frac speed_fields) # ta,
                      ib @ hex_value (ident speed_fields) # ia, pb @ payload speed_fields # pa)"
    using r by (elim conjE)
  have k: "scan_lines pattern_v1 ([?l7] @ eol '';$FILEVERSION=1.1'' # [wide_line])
       = scan_lines pattern_v1 ([?l7] @ [wide_line])"
    using r by (elim conjE)
  have dv: "decimal (time_int speed_fields) (time_frac speed_fields) = 25 / 2"
    unfolding d using speed_fields_values by simp
  have hv: "hex_value (ident speed_fields) = 256"
    unfolding h using speed_fields_values by simp
  have pv: "payload speed_fields = ''64 00''"
    using speed_fields_values by simp
  have c1': "parse_line pattern_v1 (line_v1 speed_fields @ []) = Inr (Some (25 / 2, 256, ''64 00''))"
    using c1 unfolding dv hv pv .
  have t': "split_ws ''64 00'' = [''64'', ''00'']"
    using t speed_fields_values by simp
  from s obtain tb ib pb ta ia pa where
    o: "scan_lines pattern_v1 [?l7] = Inr (tb, ib, pb)"
       "scan_lines pattern_v1 [wide_line] = Inr (ta, ia, pa)"
       "scan_lines pattern_v1 ([?l7] @ (line_v1 speed_fields @ []) # [wide_line])
          = Inr (tb @ decimal (time_int speed_fields) (time_frac speed_fields) # ta,
                 ib @ hex_value (ident speed_fields) # ia, pb @ payload speed_fields # pa)"
    by blast
  have vb: "tb = [15 / 4]" "ib = [431]" "pb = [''0b'']"
    using o(1) unfolding sb by simp_all
  have va: "ta = [25 / 2]" "ia = [256]" "pa = [''164 00'']"
    using o(2) unfolding sa by simp_all
  have s': "scan_lines pattern_v1 ([?l7] @ (line_v1 speed_fields @ []) # [wide_line])
       = Inr ([15 / 4, 25 / 2, 25 / 2], [431, 256, 256], [''0b'', ''64 00'', ''164 00''])"
    unfolding o(3) vb va dv hv pv by simp
  have s'': "scan_lines pattern_v1 ([?l7] @ speed_line # [wide_line])
       = Inr ([15 / 4, 25 / 2, 25 / 2], [431, 256, 256], [''0b'', ''64 00'', ''164 00''])"
    using s' unfolding ln speed_line_def .
  have k': "scan_lines pattern_v1 ([?l7] @ eol '';$FILEVERSION=1.1'' # [wide_line])
       = Inr ([15 / 4, 25 / 2], [431, 256], [''0b'', ''164 00''])"
    unfolding k sba ..
  show ?thesis
    using speed_fields_wf e p m speed_line_match ln c1' t' s' s'' k' by (intro conjI)
qed

section \<open>The declared length\<close>

text \<open>
  C8.  On a line in the shape of a grammar the declared length is the text of group 3,
  and the record does not depend on it: with any digits in its place the line parses to
  the same timestamp, frame id and payload.  The payload's whitespace-separated tokens
  are the line's byte tokens in order, and the bytes handed to the decoder are their
  values, one per token, however many the declared length announces.  For every line a
  grammar matches the payload of the record is the stripped text of group 4, and the
  byte conversion takes all of its tokens: it gives their values when each is below
  256 and raises otherwise, without reading group 3.
\<close>

theorem declared_length_unused:
  assumes "well_formed f" and "ends_payload rest" and "run1 is_digit d"
    and "list_all (\<lambda>t. hex_value t < 256) (tokens f)"
    and "pat = pattern_v1 \<or> pat = pattern_v2 \<or> pat = pattern_v3"
    and "match_pieces (map fst pat) l = Some ts"
  shows "(\<exists>parts. match_pieces (map fst pattern_v1) (line_v1 (f\<lparr>dlc := d\<rparr>) @ rest) = Some parts
                  \<and> group 3 pattern_v1 parts = d)
       \<and> (\<exists>parts. match_pieces (map fst pattern_v2) (line_v2 (f\<lparr>dlc := d\<rparr>) @ rest) = Some parts
                  \<and> group 3 pattern_v2 parts = d)
       \<and> (\<exists>parts. match_pieces (map fst pattern_v3) (line_v3 (f\<lparr>dlc := d\<rparr>) @ rest) = Some parts
                  \<and> group 3 pattern_v3 parts = d)
       \<and> parse_line pattern_v1 (line_v1 (f\<lparr>dlc := d\<rparr>) @ rest)
           = Inr (Some (decimal (time_int f) (time_frac f), hex_value (ident f), payload f))
       \<and> parse_line pattern_v2 (line_v2 (f\<lparr>dlc := d\<rparr>) @ rest)
           = Inr (Some (decimal (time_int f) (time_frac f), hex_value (ident f), payload f))
       \<and> parse_line pattern_v3 (line_v3 (f\<lparr>dlc := d\<rparr>) @ rest)
           = Inr (Some (decimal (time_int f) (time_frac f), hex_value (ident f), payload f))
       \<and> split_ws (payload f) = tokens f
       \<and> data_bytes (split_ws (payload f)) = Inr (map hex_value (tokens f))
       \<and> (\<exists>t i. parse_line pat l = Inr (Some (t, i, strip (group 4 pat ts))))
       \<and> data_bytes (split_ws (strip (group 4 pat ts)))
           = (if list_all (\<lambda>x. hex_value x < 256) (split_ws (strip (group 4 pat ts)))
              then Inr (map hex_value (split_ws (strip (group 4 pat ts))))
              else Inl ValueError)"
proof -
  have wf: "well_formed (f\<lparr>dlc := d\<rparr>)" using assms(1,3) by (rule wf_dlc)
  have p: "payload (f\<lparr>dlc := d\<rparr>) = payload f" by (simp add: payload_def)
  have g1: "\<exists>parts. match_pieces (map fst pattern_v1) (line_v1 (f\<lparr>dlc := d\<rparr>) @ rest) = Some parts
                  \<and> group 3 pattern_v1 parts = d"
    unfolding match_v1 [OF wf assms(2)] by (simp add: group_def pattern_v1_def)
  have g2: "\<exists>parts. match_pieces (map fst pattern_v2) (line_v2 (f\<lparr>dlc := d\<rparr>) @ rest) = Some parts
                  \<and> group 3 pattern_v2 parts = d"
    unfolding match_v2 [OF wf assms(2)] by (simp add: group_def pattern_v2_def)
  have g3: "\<exists>parts. match_pieces (map fst pattern_v3) (line_v3 (f\<lparr>dlc := d\<rparr>) @ rest) = Some parts
                  \<and> group 3 pattern_v3 parts = d"
    unfolding match_v3 [OF wf assms(2)] by (simp add: group_def pattern_v3_def)
  have "list_all (\<lambda>t. run1 is_hex t \<and> hex_value t < 256) (tokens f)"
    using wf_tokens [OF assms(1)] assms(4) by (simp add: list_all_iff)
  then have "data_bytes (tokens f) = Inr (map hex_value (tokens f))"
    by (rule data_bytes_tokens)
  then have b: "data_bytes (split_ws (payload f)) = Inr (map hex_value (tokens f))"
    by (simp add: payload_tokens [OF assms(1)])
  from matched_record [OF grammar_groups_any [OF assms(5)] assms(6)]
  have m1: "\<exists>t i. parse_line pat l = Inr (Some (t, i, strip (group 4 pat ts)))"
    and m2: "list_all (run1 is_hex) (split_ws (strip (group 4 pat ts)))"
    by blast+
  have q1: "parse_line pattern_v1 (line_v1 (f\<lparr>dlc := d\<rparr>) @ rest)
           = Inr (Some (decimal (time_int f) (time_frac f), hex_value (ident f), payload f))"
    using parse_v1 [OF wf assms(2)] by (simp add: p)
  have q2: "parse_line pattern_v2 (line_v2 (f\<lparr>dlc := d\<rparr>) @ rest)
           = Inr (Some (decimal (time_int f) (time_frac f), hex_value (ident f), payload f))"
    using parse_v2 [OF wf assms(2)] by (simp add: p)
  have q3: "parse_line pattern_v3 (line_v3 (f\<lparr>dlc := d\<rparr>) @ rest)
           = Inr (Some (decimal (time_int f) (time_frac f), hex_value (ident f), payload f))"
    using parse_v3 [OF wf assms(2)] by (simp add: p)
  show ?thesis
    using g1 g2 g3 q1 q2 q3 payload_tokens [OF assms(1)] b m1 data_bytes_hex_tokens [OF m2]
    by (intro conjI)
qed

theorem declared_length_unused_witness:
  "well_formed speed_fields \<and> ends_payload [] \<and> run1 is_digit ''8''
   \<and> list_all (\<lambda>t. hex_value t < 256) (tokens speed_fields)
   \<and> tokens speed_fields = [''64'', ''00'']
   \<and> (pattern_v1 = pattern_v1 \<or> pattern_v1 = pattern_v2 \<or> pattern_v1 = pattern_v3)
   \<and> match_pieces (map fst pattern_v1) speed_line
       = Some [lead speed_fields, number speed_fields, '')'', gap speed_fields 0,
               time_int speed_fields, ''.'', time_frac speed_fields, gap speed_fields 1,
               kind speed_fields, gap speed_fields 2, ident speed_fields, gap speed_fields 3,
               dlc speed_fields, gap speed_fields 4, payload speed_fields @ trail speed_fields]
   \<and> parse_line pattern_v1 (line_v1 (speed_fields\<lparr>dlc := ''8''\<rparr>) @ [])
       = Inr (Some (decimal (time_int speed_fields) (time_frac speed_fields),
                    hex_value (ident speed_fields), payload speed_fields))
   \<and> data_bytes (split_ws (payload speed_fields)) = Inr (map hex_value (tokens speed_fields))"
proof -
  have e: "ends_payload []" by (simp add: ends_payload_def)
  have d: "run1 is_digit ''8''" by (simp add: run1_def is_digit_def code_def)
  have t: "tokens speed_fields = [''64'', ''00'']" by (simp add: tokens_def speed_fields_def)
  have b: "list_all (\<lambda>t. hex_value t < 256) (tokens speed_fields)"
    unfolding t by (simp add: hex_value_def hex_digit_value_def code_def)
  have p: "pattern_v1 = pattern_v1 \<or> pattern_v1 = pattern_v2 \<or> pattern_v1 = pattern_v3" by simp
  note r = declared_length_unused [OF speed_fields_wf e d b p speed_line_match]
  have c1: "parse_line pattern_v1 (line_v1 (speed_fields\<lparr>dlc := ''8''\<rparr>) @ [])
       = Inr (Some (decimal (time_int speed_fields) (time_frac speed_fields),
                    hex_value (ident speed_fields), payload speed_fields))"
    using r by (elim conjE)
  have c2: "data_bytes (split_ws (payload speed_fields)) = Inr (map hex_value (tokens speed_fields))"
    using r by (elim conjE)
  show ?thesis using speed_fields_wf e d b t p speed_line_match c1 c2 by (intro conjI)
qed

end
